theory Spec2Isabelle
  imports Main "HOL-Library.Word"
begin

section \<open>JavaScript strings\<close>

text \<open>
  A JavaScript string is a sequence of UTF-16 code units, and \<open>length\<close>, \<open>trim\<close>,
  \<open>split\<close>, \<open>startsWith\<close>, \<open>endsWith\<close>, \<open>includes\<close> and the regular expressions of
  \<^verbatim>\<open>form-validation.js\<close> (none has the \<open>u\<close> flag) all work on code units.
  \<open>js\<close> embeds an ASCII literal.
\<close>

type_synonym js_char = "16 word"
type_synonym js_string = "js_char list"

abbreviation ch :: "char \<Rightarrow> js_char" where
  "ch c \<equiv> of_char c"

definition js :: "string \<Rightarrow> js_string" where
  "js s = map of_char s"

text \<open>A character class is a list of inclusive ranges, as between \<open>[\<close> and \<open>]\<close>.\<close>

fun in_class :: "js_char \<Rightarrow> (js_char \<times> js_char) list \<Rightarrow> bool" where
  "in_class c [] = False"
| "in_class c ((lo, hi) # rs) = ((lo \<le> c \<and> c \<le> hi) \<or> in_class c rs)"

text \<open>
  \<open>String.prototype.trim\<close> removes the code units of WhiteSpace and LineTerminator
  (ECMAScript): TAB, LF, VT, FF, CR, SP, NBSP, U+1680, U+2000 to U+200A, U+2028, U+2029,
  U+202F, U+205F, U+3000 and U+FEFF, at both ends.
\<close>

definition isWhiteSpace :: "js_char \<Rightarrow> bool" where
  "isWhiteSpace c = in_class c
     [(0x0009, 0x000D), (0x0020, 0x0020), (0x00A0, 0x00A0), (0x1680, 0x1680),
      (0x2000, 0x200A), (0x2028, 0x2029), (0x202F, 0x202F), (0x205F, 0x205F),
      (0x3000, 0x3000), (0xFEFF, 0xFEFF)]"

definition trim :: "js_string \<Rightarrow> js_string" where
  "trim s = rev (dropWhile isWhiteSpace (rev (dropWhile isWhiteSpace s)))"

definition startsWith :: "js_string \<Rightarrow> js_string \<Rightarrow> bool" where
  "startsWith s p = (take (length p) s = p)"

definition endsWith :: "js_string \<Rightarrow> js_string \<Rightarrow> bool" where
  "endsWith s p = (length p \<le> length s \<and> drop (length s - length p) s = p)"

fun str_includes :: "js_string \<Rightarrow> js_string \<Rightarrow> bool" where
  "str_includes [] p = (p = [])"
| "str_includes (c # s) p = (startsWith (c # s) p \<or> str_includes s p)"

text \<open>
  \<open>s.split(c)\<close> for a one-character separator: the piece before the first separator, then
  the pieces of what follows it; a string without separator is its only piece.
\<close>

function split :: "js_char \<Rightarrow> js_string \<Rightarrow> js_string list" where
  "split c s =
     (case dropWhile (\<lambda>x. x \<noteq> c) s of
        [] \<Rightarrow> [takeWhile (\<lambda>x. x \<noteq> c) s]
      | _ # rest \<Rightarrow> takeWhile (\<lambda>x. x \<noteq> c) s # split c rest)"
  by pat_completeness auto
termination
proof (relation "measure (\<lambda>(c, s). length s)")
  show "wf (measure (\<lambda>(c, s). length s))"
    by simp
next
  fix c :: js_char and s :: js_string and x rest
  assume "dropWhile (\<lambda>x. x \<noteq> c) s = x # rest"
  then have "Suc (length rest) = length (dropWhile (\<lambda>x. x \<noteq> c) s)"
    by simp
  also have "\<dots> \<le> length s"
    by (rule length_dropWhile_le)
  finally show "((c, rest), (c, s)) \<in> measure (\<lambda>(c, s). length s)"
    by simp
qed

declare split.simps [simp del]

text \<open>
  Destructuring \<open>[local, domain] = parts\<close> reads \<open>parts[0]\<close> and \<open>parts[1]\<close>; an index past
  the end reads \<open>undefined\<close>, which is \<open>None\<close>.
\<close>

definition at_index :: "'a list \<Rightarrow> nat \<Rightarrow> 'a option" where
  "at_index xs i = (if i < length xs then Some (xs ! i) else None)"

section \<open>Regular expressions\<close>

text \<open>
  The regular expressions of the file use character classes, concatenation, \<open>?\<close>, \<open>*\<close>,
  \<open>+\<close> and \<open>{0,n}\<close>, inside \<open>^\<close> and \<open>$\<close> with no flag, so that \<open>test\<close> succeeds exactly on
  the strings the whole expression matches. \<open>test\<close> decides this with derivatives.
\<close>

datatype rx =
    Never
  | Empty
  | Chars "(js_char \<times> js_char) list"
  | Seq rx rx
  | Or rx rx
  | Many rx
  | AtMost nat rx

definition Lit :: "char \<Rightarrow> rx" where
  "Lit c = Chars [(ch c, ch c)]"

definition Opt :: "rx \<Rightarrow> rx" where
  "Opt r = Or Empty r"

definition Many1 :: "rx \<Rightarrow> rx" where
  "Many1 r = Seq r (Many r)"

fun nullable :: "rx \<Rightarrow> bool" where
  "nullable Never = False"
| "nullable Empty = True"
| "nullable (Chars rs) = False"
| "nullable (Seq r s) = (nullable r \<and> nullable s)"
| "nullable (Or r s) = (nullable r \<or> nullable s)"
| "nullable (Many r) = True"
| "nullable (AtMost n r) = True"

fun deriv :: "js_char \<Rightarrow> rx \<Rightarrow> rx" where
  "deriv c Never = Never"
| "deriv c Empty = Never"
| "deriv c (Chars rs) = (if in_class c rs then Empty else Never)"
| "deriv c (Seq r s) =
     (if nullable r then Or (Seq (deriv c r) s) (deriv c s) else Seq (deriv c r) s)"
| "deriv c (Or r s) = Or (deriv c r) (deriv c s)"
| "deriv c (Many r) = Seq (deriv c r) (Many r)"
| "deriv c (AtMost 0 r) = Never"
| "deriv c (AtMost (Suc n) r) = Seq (deriv c r) (AtMost n r)"

fun test :: "rx \<Rightarrow> js_string \<Rightarrow> bool" where
  "test r [] = nullable r"
| "test r (c # s) = test (deriv c r) s"

text \<open>The strings an expression matches, for the proofs about \<open>test\<close>.\<close>

fun lang :: "rx \<Rightarrow> js_string set" where
  "lang Never = {}"
| "lang Empty = {[]}"
| "lang (Chars rs) = {[c] | c. in_class c rs}"
| "lang (Seq r s) = {u @ v | u v. u \<in> lang r \<and> v \<in> lang s}"
| "lang (Or r s) = lang r \<union> lang s"
| "lang (Many r) = {concat ws | ws. set ws \<subseteq> lang r}"
| "lang (AtMost n r) = {concat ws | ws. set ws \<subseteq> lang r \<and> length ws \<le> n}"

section \<open>Configuration\<close>

text \<open>\<open>FORM_CONFIG.VALIDATION\<close> and \<open>FORM_CONFIG.MESSAGES\<close>.\<close>

definition alnum :: "(js_char \<times> js_char) list" where
  "alnum = [(ch CHR ''a'', ch CHR ''z''), (ch CHR ''A'', ch CHR ''Z''),
            (ch CHR ''0'', ch CHR ''9'')]"

definition alnum_hyphen :: "(js_char \<times> js_char) list" where
  "alnum_hyphen = alnum @ [(ch CHR ''-'', ch CHR ''-'')]"

definition local_chars :: "(js_char \<times> js_char) list" where
  "local_chars = alnum @
     map (\<lambda>c. (ch c, ch c)) (''.!#$%&'' @ [CHR 0x27] @ ''*+/=?^_`{|}~-'')"

text \<open>\<open>[a-zA-Z0-9](?:[a-zA-Z0-9-]{0,61}[a-zA-Z0-9])?\<close>\<close>

definition label :: rx where
  "label = Seq (Chars alnum) (Opt (Seq (AtMost 61 (Chars alnum_hyphen)) (Chars alnum)))"

definition emailRegex :: rx where
  "emailRegex =
     Seq (Many1 (Chars local_chars))
    (Seq (Lit CHR ''@'')
    (Seq label
         (Many (Seq (Lit CHR ''.'') label))))"

definition minLength :: nat where
  "minLength = 5"

definition maxLength :: nat where
  "maxLength = 254"

definition MESSAGES_required :: js_string where
  "MESSAGES_required = js ''Please enter your email address''"

definition MESSAGES_invalid :: js_string where
  "MESSAGES_invalid = js ''Please enter a valid email address''"

definition MESSAGES_tooShort :: js_string where
  "MESSAGES_tooShort = js ''Email address is too short''"

definition MESSAGES_tooLong :: js_string where
  "MESSAGES_tooLong = js ''Email address is too long''"

definition MESSAGES_success :: js_string where
  "MESSAGES_success = js ''Thank you! We'll notify you when we launch.''"

definition MESSAGES_networkError :: js_string where
  "MESSAGES_networkError = js ''Network error. Please try again.''"

definition MESSAGES_alreadySubscribed :: js_string where
  "MESSAGES_alreadySubscribed = js ''You're already subscribed! We'll be in touch soon.''"

definition MESSAGES_rateLimited :: js_string where
  "MESSAGES_rateLimited = js ''Too many attempts. Please try again in a few minutes.''"

section \<open>EmailValidator\<close>

record validation =
  isValid :: bool
  message :: js_string

text \<open>\<open>validateLocalPart\<close>; \<open>None\<close> is \<open>undefined\<close>, which \<open>!local\<close> rejects.\<close>

fun validateLocalPart :: "js_string option \<Rightarrow> bool" where
  "validateLocalPart None = False"
| "validateLocalPart (Some local) =
     (if local = [] \<or> length local = 0 \<or> length local > 64 then False
      else if startsWith local (js ''.'') \<or> endsWith local (js ''.'')
              \<or> str_includes local (js ''..'') then False
      else True)"

text \<open>The loop over \<open>domainParts\<close>, which returns false at the first part that fails.\<close>

fun checkParts :: "js_string list \<Rightarrow> bool" where
  "checkParts [] = True"
| "checkParts (part # rest) =
     (if part = [] \<or> length part = 0 \<or> length part > 63 then False
      else if \<not> test (Many1 (Chars alnum_hyphen)) part then False
      else if startsWith part (js ''-'') \<or> endsWith part (js ''-'') then False
      else checkParts rest)"

fun validateDomainPart :: "js_string option \<Rightarrow> bool" where
  "validateDomainPart None = False"
| "validateDomainPart (Some domain) =
     (if domain = [] \<or> length domain = 0 \<or> length domain > 253 then False
      else let domainParts = split (ch CHR ''.'') domain in
        if length domainParts < 2 then False
        else if \<not> checkParts domainParts then False
        else let tld = domainParts ! (length domainParts - 1) in
          if length tld < 2 \<or> \<not> test (Many1 (Chars [(ch CHR ''a'', ch CHR ''z''),
                                                      (ch CHR ''A'', ch CHR ''Z'')])) tld
          then False
          else True)"

text \<open>\<open>(email.match(/@/g) || []).length\<close> is the number of \<open>@\<close> in the string.\<close>

definition validateEmailStructure :: "js_string \<Rightarrow> bool" where
  "validateEmailStructure email =
     (if length (filter (\<lambda>c. c = ch CHR ''@'') email) \<noteq> 1 then False
      else let parts = split (ch CHR ''@'') email;
               local = at_index parts 0;
               domain = at_index parts 1 in
        if \<not> validateLocalPart local then False
        else if \<not> validateDomainPart domain then False
        else True)"

definition validate :: "js_string \<Rightarrow> validation" where
  "validate email0 =
     (if email0 = [] \<or> trim email0 = [] then
        \<lparr>isValid = False, message = MESSAGES_required\<rparr>
      else let email = trim email0 in
        if length email < minLength then
          \<lparr>isValid = False, message = MESSAGES_tooShort\<rparr>
        else if length email > maxLength then
          \<lparr>isValid = False, message = MESSAGES_tooLong\<rparr>
        else if \<not> test emailRegex email then
          \<lparr>isValid = False, message = MESSAGES_invalid\<rparr>
        else if \<not> validateEmailStructure email then
          \<lparr>isValid = False, message = MESSAGES_invalid\<rparr>
        else
          \<lparr>isValid = True, message = js ''Valid email address''\<rparr>)"

section \<open>Browser storage and JSON\<close>

text \<open>
  The values \<open>JSON.parse\<close> returns. Numbers are integers, as \<open>Date.now()\<close> and the attempt
  counter are (doubles are exact on them below \<open>2^53\<close>). The properties of an object are
  \<open>null\<close>, booleans or numbers: on these the arithmetic and the comparisons of
  \<open>isRateLimited\<close> and \<open>recordAttempt\<close> are written out below. A property read that finds
  nothing gives \<open>undefined\<close>, which is \<open>None\<close>.
\<close>

datatype prim = Null | Bool bool | Num int

datatype json =
    Prim prim
  | Str js_string
  | Arr "json list"
  | Obj "(js_string \<times> prim) list"

text \<open>
  A stored string, seen through \<open>JSON.parse\<close>: the empty string (which is falsy), a
  non-empty string that \<open>JSON.parse\<close> rejects, or the text of a value.
\<close>

datatype stored = Blank | Unparsable | Encodes json

datatype exn = Error js_string | SyntaxError | TypeError | DOMException

text \<open>
  \<open>localStorage\<close>: what is stored under each key, and which calls throw (storage that is
  disabled, or full).
\<close>

record storage =
  items :: "js_string \<Rightarrow> stored option"
  getItemThrows :: "js_string \<Rightarrow> bool"
  setItemThrows :: "js_string \<Rightarrow> stored \<Rightarrow> bool"
  removeItemThrows :: "js_string \<Rightarrow> bool"

text \<open>
  A computation runs on the storage and either throws or returns; what it did to the
  storage before throwing stays done.
\<close>

type_synonym 'a comp = "storage \<Rightarrow> (exn + 'a) \<times> storage"

definition return :: "'a \<Rightarrow> 'a comp" where
  "return x st = (Inr x, st)"

definition throw :: "exn \<Rightarrow> 'a comp" where
  "throw e st = (Inl e, st)"

definition bind :: "'a comp \<Rightarrow> ('a \<Rightarrow> 'b comp) \<Rightarrow> 'b comp" where
  "bind m f st = (case m st of (Inl e, st') \<Rightarrow> (Inl e, st') | (Inr x, st') \<Rightarrow> f x st')"

definition try_catch :: "'a comp \<Rightarrow> (exn \<Rightarrow> 'a comp) \<Rightarrow> 'a comp" where
  "try_catch m h st = (case m st of (Inl e, st') \<Rightarrow> h e st' | (Inr x, st') \<Rightarrow> (Inr x, st'))"

definition getItem :: "js_string \<Rightarrow> stored option comp" where
  "getItem k st = (if getItemThrows st k then throw DOMException st else return (items st k) st)"

definition setItem :: "js_string \<Rightarrow> stored \<Rightarrow> unit comp" where
  "setItem k v st =
     (if setItemThrows st k v then throw DOMException st
      else return () (st\<lparr>items := (items st)(k \<mapsto> v)\<rparr>))"

definition removeItem :: "js_string \<Rightarrow> unit comp" where
  "removeItem k st =
     (if removeItemThrows st k then throw DOMException st
      else return () (st\<lparr>items := (items st)(k := None)\<rparr>))"

fun JSON_parse :: "stored \<Rightarrow> json comp" where
  "JSON_parse Blank = throw SyntaxError"
| "JSON_parse Unparsable = throw SyntaxError"
| "JSON_parse (Encodes v) = return v"

definition JSON_stringify :: "json \<Rightarrow> stored" where
  "JSON_stringify v = Encodes v"

text \<open>
  Reading the property \<open>timestamp\<close> or \<open>attempts\<close>, which no prototype defines: a
  TypeError on \<open>null\<close>, \<open>undefined\<close> on every value but an object that has it.
\<close>

fun getProp :: "json \<Rightarrow> js_string \<Rightarrow> prim option comp" where
  "getProp (Prim Null) k = throw TypeError"
| "getProp (Obj kvs) k = return (map_of kvs k)"
| "getProp v k = return None"

fun put :: "js_string \<Rightarrow> prim \<Rightarrow> (js_string \<times> prim) list \<Rightarrow> (js_string \<times> prim) list" where
  "put k v [] = [(k, v)]"
| "put k v ((k', v') # kvs) = (if k' = k then (k, v) # kvs else (k', v') # put k v kvs)"

text \<open>
  Writing such a property. The file is in strict mode, where the write throws a TypeError
  on \<open>null\<close> and on every primitive; on an array it succeeds, and \<open>JSON.stringify\<close> leaves
  the property out.
\<close>

fun setProp :: "json \<Rightarrow> js_string \<Rightarrow> prim \<Rightarrow> json comp" where
  "setProp (Obj kvs) k v = return (Obj (put k v kvs))"
| "setProp (Arr xs) k v = return (Arr xs)"
| "setProp (Prim p) k v = throw TypeError"
| "setProp (Str s) k v = throw TypeError"

text \<open>\<open>ToNumber\<close>; \<open>None\<close> is \<open>NaN\<close>, on which every comparison is false.\<close>

fun toNumber :: "prim option \<Rightarrow> int option" where
  "toNumber None = None"
| "toNumber (Some Null) = Some 0"
| "toNumber (Some (Bool b)) = Some (if b then 1 else 0)"
| "toNumber (Some (Num n)) = Some n"

text \<open>\<open>now - timestamp > fiveMinutes\<close>\<close>

definition elapsed_exceeds :: "int \<Rightarrow> prim option \<Rightarrow> int \<Rightarrow> bool" where
  "elapsed_exceeds now timestamp limit =
     (case toNumber timestamp of None \<Rightarrow> False | Some t \<Rightarrow> now - t > limit)"

text \<open>\<open>attempts >= 3\<close>\<close>

definition at_least :: "prim option \<Rightarrow> int \<Rightarrow> bool" where
  "at_least attempts n = (case toNumber attempts of None \<Rightarrow> False | Some a \<Rightarrow> a \<ge> n)"

text \<open>\<open>(attempts || 0) + 1\<close>: \<open>undefined\<close>, \<open>null\<close>, \<open>false\<close> and \<open>0\<close> are falsy.\<close>

fun or_zero_plus_one :: "prim option \<Rightarrow> prim" where
  "or_zero_plus_one None = Num 1"
| "or_zero_plus_one (Some Null) = Num 1"
| "or_zero_plus_one (Some (Bool b)) = (if b then Num 2 else Num 1)"
| "or_zero_plus_one (Some (Num n)) = (if n = 0 then Num 1 else Num (n + 1))"

text \<open>Array.prototype.includes, String.prototype.includes; other values have neither.\<close>

fun includes_value :: "json \<Rightarrow> js_string \<Rightarrow> bool comp" where
  "includes_value (Arr xs) x = return (Str x \<in> set xs)"
| "includes_value (Str s) x = return (str_includes s x)"
| "includes_value v x = throw TypeError"

fun push :: "json \<Rightarrow> js_string \<Rightarrow> json comp" where
  "push (Arr xs) x = return (Arr (xs @ [Str x]))"
| "push v x = throw TypeError"

section \<open>LocalStorageManager\<close>

text \<open>
  \<open>String.prototype.toLowerCase\<close> follows the Unicode case tables of the runtime; the
  methods take it as the parameter \<open>lc\<close>. \<open>asciiLower\<close> is what it does on ASCII.
\<close>

definition asciiLower :: "js_string \<Rightarrow> js_string" where
  "asciiLower s = map (\<lambda>c. if ch CHR ''A'' \<le> c \<and> c \<le> ch CHR ''Z'' then c + 0x20 else c) s"

definition storageKey :: js_string where
  "storageKey = js ''crumbleBakery_emailSubmissions''"

definition rateLimitKey :: js_string where
  "rateLimitKey = js ''crumbleBakery_rateLimiting''"

definition getSubmissions :: "json comp" where
  "getSubmissions =
     try_catch
       (bind (getItem storageKey) (\<lambda>stored.
          case stored of
            None \<Rightarrow> return (Arr [])
          | Some Blank \<Rightarrow> return (Arr [])
          | Some t \<Rightarrow> JSON_parse t))
       (\<lambda>error. return (Arr []))"

definition wasEmailSubmitted :: "(js_string \<Rightarrow> js_string) \<Rightarrow> js_string \<Rightarrow> bool comp" where
  "wasEmailSubmitted lc email =
     try_catch
       (bind getSubmissions (\<lambda>submissions.
          includes_value submissions (lc email)))
       (\<lambda>error. return False)"

definition storeSubmission :: "(js_string \<Rightarrow> js_string) \<Rightarrow> js_string \<Rightarrow> unit comp" where
  "storeSubmission lc email =
     try_catch
       (bind getSubmissions (\<lambda>submissions.
        bind (push submissions (lc email)) (\<lambda>submissions.
          setItem storageKey (JSON_stringify submissions))))
       (\<lambda>error. return ())"

definition fiveMinutes :: int where
  "fiveMinutes = 5 * 60 * 1000"

text \<open>\<open>now\<close> is what \<open>Date.now()\<close> returns in the call.\<close>

definition isRateLimited :: "int \<Rightarrow> bool comp" where
  "isRateLimited now =
     try_catch
       (bind (getItem rateLimitKey) (\<lambda>rateLimitData.
          case rateLimitData of
            None \<Rightarrow> return False
          | Some Blank \<Rightarrow> return False
          | Some t \<Rightarrow>
              bind (JSON_parse t) (\<lambda>parsed.
              bind (getProp parsed (js ''timestamp'')) (\<lambda>timestamp.
              bind (getProp parsed (js ''attempts'')) (\<lambda>attempts.
                if elapsed_exceeds now timestamp fiveMinutes then
                  bind (removeItem rateLimitKey) (\<lambda>_. return False)
                else return (at_least attempts 3))))))
       (\<lambda>error. return False)"

definition recordAttempt :: "int \<Rightarrow> unit comp" where
  "recordAttempt now =
     try_catch
       (bind (getItem rateLimitKey) (\<lambda>rateLimitData.
          case rateLimitData of
            None \<Rightarrow>
              setItem rateLimitKey (JSON_stringify
                (Obj [(js ''timestamp'', Num now), (js ''attempts'', Num 1)]))
          | Some Blank \<Rightarrow>
              setItem rateLimitKey (JSON_stringify
                (Obj [(js ''timestamp'', Num now), (js ''attempts'', Num 1)]))
          | Some t \<Rightarrow>
              bind (JSON_parse t) (\<lambda>data.
              bind (getProp data (js ''attempts'')) (\<lambda>attempts.
              bind (setProp data (js ''attempts'') (or_zero_plus_one attempts)) (\<lambda>data.
              bind (setProp data (js ''timestamp'') (Num now)) (\<lambda>data.
                setItem rateLimitKey (JSON_stringify data)))))))
       (\<lambda>error. return ())"

section \<open>EmailSubmissionHandler\<close>

record submission =
  success :: bool
  message :: js_string

text \<open>
  \<open>submitEmail\<close>, run to the end of its promise: a rejection is the thrown \<open>Error\<close>.
  \<open>now1\<close> and \<open>now2\<close> are the clock in \<open>isRateLimited\<close> and in \<open>recordAttempt\<close>, and
  \<open>unlucky\<close> is the outcome of \<open>Math.random() < 0.05\<close>. Nothing else touches the storage
  during the delay.
\<close>

definition submitEmail ::
  "(js_string \<Rightarrow> js_string) \<Rightarrow> js_string \<Rightarrow> int \<Rightarrow> int \<Rightarrow> bool \<Rightarrow> submission comp" where
  "submitEmail lc email now1 now2 unlucky =
     bind (isRateLimited now1) (\<lambda>limited.
       if limited then throw (Error MESSAGES_rateLimited)
       else
         bind (recordAttempt now2) (\<lambda>_.
         bind (wasEmailSubmitted lc email) (\<lambda>submitted.
           if submitted then throw (Error MESSAGES_alreadySubscribed)
           else if unlucky then throw (Error MESSAGES_networkError)
           else
             bind (storeSubmission lc email) (\<lambda>_.
               return \<lparr>success = True, message = MESSAGES_success\<rparr>))))"

section \<open>The validation rules in the words of the specification\<close>

datatype reason = REQUIRED | TOO_SHORT | TOO_LONG | INVALID_FORMAT

datatype validation_result = VALID | INVALID reason

text \<open>How \<open>validate\<close> reports each result: the flag and the message of the reason.\<close>

fun report :: "validation_result \<Rightarrow> validation" where
  "report VALID = \<lparr>isValid = True, message = js ''Valid email address''\<rparr>"
| "report (INVALID REQUIRED) = \<lparr>isValid = False, message = MESSAGES_required\<rparr>"
| "report (INVALID TOO_SHORT) = \<lparr>isValid = False, message = MESSAGES_tooShort\<rparr>"
| "report (INVALID TOO_LONG) = \<lparr>isValid = False, message = MESSAGES_tooLong\<rparr>"
| "report (INVALID INVALID_FORMAT) = \<lparr>isValid = False, message = MESSAGES_invalid\<rparr>"

text \<open>The parts of a string on either side of its first \<open>@\<close>.\<close>

definition local_of :: "js_string \<Rightarrow> js_string" where
  "local_of e = takeWhile (\<lambda>c. c \<noteq> ch CHR ''@'') e"

definition domain_of :: "js_string \<Rightarrow> js_string" where
  "domain_of e = drop 1 (dropWhile (\<lambda>c. c \<noteq> ch CHR ''@'') e)"

text \<open>Local part: length 1 to 64, no \<open>.\<close> at either end, no \<open>..\<close> inside.\<close>

definition rule_local :: "js_string \<Rightarrow> bool" where
  "rule_local l =
     (1 \<le> length l \<and> length l \<le> 64
      \<and> \<not> startsWith l (js ''.'') \<and> \<not> endsWith l (js ''.'')
      \<and> \<not> str_includes l (js ''..''))"

text \<open>A label: length 1 to 63, of \<open>[A-Za-z0-9-]\<close>, no \<open>-\<close> at either end.\<close>

definition rule_label :: "js_string \<Rightarrow> bool" where
  "rule_label p =
     (1 \<le> length p \<and> length p \<le> 63
      \<and> list_all (\<lambda>c. in_class c alnum_hyphen) p
      \<and> \<not> startsWith p (js ''-'') \<and> \<not> endsWith p (js ''-''))"

text \<open>Domain: at least two labels between dots, the last one of two letters or more.\<close>

definition rule_domain :: "js_string \<Rightarrow> bool" where
  "rule_domain d =
     (let labels = split (ch CHR ''.'') d in
        2 \<le> length labels
        \<and> list_all rule_label labels
        \<and> 2 \<le> length (last labels)
        \<and> list_all (\<lambda>c. in_class c [(ch CHR ''a'', ch CHR ''z''), (ch CHR ''A'', ch CHR ''Z'')])
             (last labels))"

definition rules :: "js_string \<Rightarrow> bool" where
  "rules e =
     (length (filter (\<lambda>c. c = ch CHR ''@'') e) = 1
      \<and> rule_local (local_of e)
      \<and> rule_domain (domain_of e))"

text \<open>
  The general grammar of the address, for the local part: only the characters of the
  first class of \<open>emailRegex\<close>.
\<close>

definition rule_local_chars :: "js_string \<Rightarrow> bool" where
  "rule_local_chars e = list_all (\<lambda>c. in_class c local_chars) (local_of e)"

text \<open>
  The steps of the validator in order, the first failure deciding the reason, with
  \<open>ok\<close> the rules on the trimmed string.
\<close>

definition classify :: "(js_string \<Rightarrow> bool) \<Rightarrow> js_string \<Rightarrow> validation_result" where
  "classify ok raw =
     (let e = trim raw in
        if e = [] then INVALID REQUIRED
        else if length e < 5 then INVALID TOO_SHORT
        else if length e > 254 then INVALID TOO_LONG
        else if ok e then VALID
        else INVALID INVALID_FORMAT)"

text \<open>Normalization, in the words of the glossary: lower-casing and trimming.\<close>

definition normalize :: "(js_string \<Rightarrow> js_string) \<Rightarrow> js_string \<Rightarrow> js_string" where
  "normalize lc e = trim (lc e)"

section \<open>The rate-limit state\<close>

text \<open>
  \<open>RateLimitState\<close> as it is stored: the number under \<open>attempts\<close> and the number under
  \<open>timestamp\<close> of the object under \<open>rateLimitKey\<close>, when there is one.
\<close>

definition rateLimitField :: "storage \<Rightarrow> js_string \<Rightarrow> int option" where
  "rateLimitField st k =
     (case items st rateLimitKey of
        Some (Encodes (Obj kvs)) \<Rightarrow>
          (case map_of kvs k of Some (Num n) \<Rightarrow> Some n | _ \<Rightarrow> None)
      | _ \<Rightarrow> None)"

definition attemptCount :: "storage \<Rightarrow> int option" where
  "attemptCount st = rateLimitField st (js ''attempts'')"

definition windowStart :: "storage \<Rightarrow> int option" where
  "windowStart st = rateLimitField st (js ''timestamp'')"

text \<open>The state is absent, or has both numbers.\<close>

definition wellFormed :: "storage \<Rightarrow> bool" where
  "wellFormed st =
     (case items st rateLimitKey of
        None \<Rightarrow> True
      | Some _ \<Rightarrow> attemptCount st \<noteq> None \<and> windowStart st \<noteq> None)"

text \<open>A storage on which no call on the two keys of the manager throws.\<close>

definition working :: "storage \<Rightarrow> bool" where
  "working st =
     (\<not> getItemThrows st storageKey \<and> \<not> getItemThrows st rateLimitKey
      \<and> \<not> removeItemThrows st rateLimitKey
      \<and> (\<forall>v. \<not> setItemThrows st storageKey v) \<and> (\<forall>v. \<not> setItemThrows st rateLimitKey v))"

datatype call = IsRateLimited int | RecordAttempt int

fun perform :: "call \<Rightarrow> storage \<Rightarrow> storage" where
  "perform (IsRateLimited now) st = snd (isRateLimited now st)"
| "perform (RecordAttempt now) st = snd (recordAttempt now st)"

text \<open>Whether the window that started at the stored \<open>timestamp\<close> is over at \<open>now\<close>.\<close>

definition expired :: "int \<Rightarrow> storage \<Rightarrow> bool" where
  "expired now st = (case windowStart st of None \<Rightarrow> False | Some t \<Rightarrow> now - t > fiveMinutes)"

text \<open>The storage after a sequence of calls, the clock of a call, and its kind.\<close>

definition run :: "call list \<Rightarrow> storage \<Rightarrow> storage" where
  "run cs st = foldl (\<lambda>s c. perform c s) st cs"

fun time_of :: "call \<Rightarrow> int" where
  "time_of (IsRateLimited now) = now"
| "time_of (RecordAttempt now) = now"

fun is_attempt :: "call \<Rightarrow> bool" where
  "is_attempt (IsRateLimited now) = False"
| "is_attempt (RecordAttempt now) = True"

text \<open>The time of the last attempt in \<open>cs\<close>, or \<open>t\<close> when \<open>cs\<close> has none.\<close>

fun latest :: "int \<Rightarrow> call list \<Rightarrow> int" where
  "latest t [] = t"
| "latest t (RecordAttempt t' # cs) = latest t' cs"
| "latest t (IsRateLimited now # cs) = latest t cs"

text \<open>Every call of \<open>cs\<close> is made in the five minutes that start at \<open>t1\<close>.\<close>

definition within :: "int \<Rightarrow> call list \<Rightarrow> bool" where
  "within t1 cs = list_all (\<lambda>c. t1 \<le> time_of c \<and> time_of c \<le> t1 + fiveMinutes) cs"

text \<open>The count, where there is one, is not negative.\<close>

definition nonneg :: "storage \<Rightarrow> bool" where
  "nonneg st = (case attemptCount st of None \<Rightarrow> True | Some n \<Rightarrow> 0 \<le> n)"

text \<open>
  What one call does to the state, from \<open>st\<close> to \<open>st'\<close>. An attempt makes the count one
  more than it was, or 1 when there was none, and starts the window at its clock. A
  check that finds the window expired clears the state; any other check leaves it.
\<close>

fun window_step :: "call \<Rightarrow> storage \<Rightarrow> storage \<Rightarrow> bool" where
  "window_step (RecordAttempt now) st st' =
     (attemptCount st' = Some (case attemptCount st of None \<Rightarrow> 1 | Some n \<Rightarrow> n + 1)
      \<and> windowStart st' = Some now)"
| "window_step (IsRateLimited now) st st' =
     (if expired now st then items st' rateLimitKey = None
      else items st' rateLimitKey = items st rateLimitKey)"

fun window_steps :: "call list \<Rightarrow> storage \<Rightarrow> bool" where
  "window_steps [] st = True"
| "window_steps (c # cs) st =
     (window_step c st (perform c st) \<and> window_steps cs (perform c st))"

section \<open>Views and fixtures\<close>

text \<open>What \<open>getSubmissions\<close> returns: the stored value, or the empty array.\<close>

definition persisted :: "storage \<Rightarrow> json" where
  "persisted st =
     (if getItemThrows st storageKey then Arr []
      else case items st storageKey of Some (Encodes v) \<Rightarrow> v | _ \<Rightarrow> Arr [])"

text \<open>The storage after \<open>recordAttempt\<close> at each of the times \<open>ts\<close>, in order.\<close>

definition attempts_at :: "int list \<Rightarrow> storage \<Rightarrow> storage" where
  "attempts_at ts st = foldl (\<lambda>s t. snd (recordAttempt t s)) st ts"

text \<open>
  An empty storage that works, one pre-seeded with submitted emails, one with a
  rate-limit state, and one on which every call throws.
\<close>

definition freshStore :: storage where
  "freshStore =
     \<lparr>items = (\<lambda>k. None), getItemThrows = (\<lambda>k. False),
      setItemThrows = (\<lambda>k v. False), removeItemThrows = (\<lambda>k. False)\<rparr>"

definition seededStore :: "js_string list \<Rightarrow> storage" where
  "seededStore emails =
     freshStore\<lparr>items := (items freshStore)(storageKey \<mapsto> Encodes (Arr (map Str emails)))\<rparr>"

definition limitedStore :: "int \<Rightarrow> int \<Rightarrow> storage" where
  "limitedStore t n =
     freshStore\<lparr>items := (items freshStore)(rateLimitKey \<mapsto>
       Encodes (Obj [(js ''timestamp'', Num t), (js ''attempts'', Num n)]))\<rparr>"

definition brokenStore :: storage where
  "brokenStore =
     \<lparr>items = (\<lambda>k. Some Unparsable), getItemThrows = (\<lambda>k. True),
      setItemThrows = (\<lambda>k v. True), removeItemThrows = (\<lambda>k. True)\<rparr>"

section \<open>Trimming\<close>

lemma trim_head: "trim s \<noteq> [] \<Longrightarrow> \<not> isWhiteSpace (hd (trim s))"
proof -
  assume ne: "trim s \<noteq> []"
  define A where "A = dropWhile isWhiteSpace s"
  define B where "B = dropWhile isWhiteSpace (rev A)"
  have t: "trim s = rev B" by (simp add: trim_def A_def B_def)
  have "rev A = takeWhile isWhiteSpace (rev A) @ B" by (simp add: B_def)
  then have "A = rev B @ rev (takeWhile isWhiteSpace (rev A))"
    by (metis rev_append rev_rev_ident)
  moreover from ne t have "rev B \<noteq> []" by simp
  ultimately have "hd A = hd (rev B)" and "A \<noteq> []"
    by (metis hd_append2, metis append_is_Nil_conv)
  with t have "hd (trim s) = hd A" and "A \<noteq> []" by simp_all
  moreover have "A \<noteq> [] \<Longrightarrow> \<not> isWhiteSpace (hd A)"
    unfolding A_def by (rule hd_dropWhile)
  ultimately show ?thesis by simp
qed

lemma trim_idem: "trim (trim s) = trim s"
proof -
  have a: "dropWhile isWhiteSpace (trim s) = trim s"
    using trim_head [of s] by (cases "trim s = []") (simp_all add: dropWhile_eq_self_iff)
  have "dropWhile isWhiteSpace (rev (trim s)) = rev (trim s)"
    by (simp add: trim_def)
  then have "trim (trim s) = rev (rev (trim s))"
    unfolding trim_def [of "trim s"] a by simp
  then show ?thesis by simp
qed

lemma trim_Nil: "trim [] = []"
  by (simp add: trim_def)

text \<open>
  C10. \<open>validate\<close> does not see the white space around its input: for every string the
  result on the string, flag and message, is the result on the trimmed string.
\<close>

theorem validate_trim_invariant: "validate s = validate (trim s)"
proof -
  have "(trim s = [] \<or> trim (trim s) = []) = (s = [] \<or> trim s = [])"
    using trim_Nil by (auto simp: trim_idem)
  then show ?thesis
    unfolding validate_def trim_idem by simp
qed

section \<open>The regular expression matcher\<close>

lemma nullable_lang: "nullable r \<longleftrightarrow> [] \<in> lang r"
proof (induction r)
  case (Many r)
  show ?case by (auto intro!: exI [of _ "[]"])
next
  case (AtMost n r)
  show ?case by (auto intro!: exI [of _ "[]"])
qed auto

lemma concat_Cons_split:
  "concat ws = c # s \<Longrightarrow> set ws \<subseteq> L \<Longrightarrow>
     \<exists>u ws'. c # u \<in> L \<and> set ws' \<subseteq> L \<and> s = u @ concat ws' \<and> length ws' < length ws"
proof (induction ws)
  case Nil
  then show ?case by simp
next
  case (Cons w ws)
  show ?case
  proof (cases w)
    case Nil
    with Cons.prems have "concat ws = c # s" "set ws \<subseteq> L" by simp_all
    from Cons.IH [OF this] obtain u ws' where
      "c # u \<in> L" "set ws' \<subseteq> L" "s = u @ concat ws'" "length ws' < length ws"
      by blast
    then show ?thesis
      by (intro exI [of _ u] exI [of _ ws']) simp
  next
    case (Cons a u)
    with Cons.prems have "s = u @ concat ws" "c # u \<in> L" "set ws \<subseteq> L" by auto
    then show ?thesis
      by (intro exI [of _ u] exI [of _ ws]) simp
  qed
qed

lemma deriv_lang: "s \<in> lang (deriv c r) \<longleftrightarrow> c # s \<in> lang r"
proof (induction r arbitrary: s)
  case (Seq r1 r2)
  show ?case
  proof
    assume "s \<in> lang (deriv c (Seq r1 r2))"
    then consider (left) u v where "s = u @ v" "u \<in> lang (deriv c r1)" "v \<in> lang r2"
      | (right) "nullable r1" "s \<in> lang (deriv c r2)"
      by (auto split: if_splits)
    then show "c # s \<in> lang (Seq r1 r2)"
    proof cases
      case left
      then have "c # s = (c # u) @ v" "c # u \<in> lang r1" by (simp_all add: Seq.IH)
      with left(3) show ?thesis by (simp del: append.simps) blast
    next
      case right
      then have "c # s = [] @ (c # s)" "[] \<in> lang r1" "c # s \<in> lang r2"
        by (simp_all add: Seq.IH nullable_lang)
      then show ?thesis by (simp del: append.simps) blast
    qed
  next
    assume "c # s \<in> lang (Seq r1 r2)"
    then obtain u v where uv: "c # s = u @ v" "u \<in> lang r1" "v \<in> lang r2" by auto
    show "s \<in> lang (deriv c (Seq r1 r2))"
    proof (cases u)
      case Nil
      with uv have "nullable r1" "s \<in> lang (deriv c r2)"
        by (simp_all add: nullable_lang Seq.IH)
      then show ?thesis by simp
    next
      case (Cons a u')
      with uv have "a = c" by simp
      with Cons uv have "s = u' @ v" "c # u' \<in> lang r1" by simp_all
      then have "s = u' @ v" "u' \<in> lang (deriv c r1)" by (simp_all add: Seq.IH)
      with uv(3) show ?thesis by auto
    qed
  qed
next
  case (Many r)
  show ?case
  proof
    assume "s \<in> lang (deriv c (Many r))"
    then obtain u ws where "s = u @ concat ws" "c # u \<in> lang r" "set ws \<subseteq> lang r"
      by (auto simp: Many.IH)
    then have "c # s = concat ((c # u) # ws) \<and> set ((c # u) # ws) \<subseteq> lang r" by simp
    then show "c # s \<in> lang (Many r)" by (simp del: concat.simps set_simps) blast
  next
    assume "c # s \<in> lang (Many r)"
    then obtain ws where "concat ws = c # s" "set ws \<subseteq> lang r" by auto
    from concat_Cons_split [OF this] show "s \<in> lang (deriv c (Many r))"
      by (auto simp: Many.IH)
  qed
next
  case (AtMost n r)
  show ?case
  proof
    assume a: "s \<in> lang (deriv c (AtMost n r))"
    then obtain m where n: "n = Suc m" by (cases n) auto
    with a obtain u ws where "s = u @ concat ws" "c # u \<in> lang r" "set ws \<subseteq> lang r" "length ws \<le> m"
      by (auto simp: AtMost.IH)
    then have "c # s = concat ((c # u) # ws) \<and> set ((c # u) # ws) \<subseteq> lang r
        \<and> length ((c # u) # ws) \<le> n" by (simp add: n)
    then show "c # s \<in> lang (AtMost n r)" by (simp del: concat.simps set_simps list.size) blast
  next
    assume "c # s \<in> lang (AtMost n r)"
    then obtain ws where w: "concat ws = c # s" "set ws \<subseteq> lang r" "length ws \<le> n" by auto
    from concat_Cons_split [OF w(1,2)] obtain u ws' where
      u: "c # u \<in> lang r" "set ws' \<subseteq> lang r" "s = u @ concat ws'" "length ws' < length ws"
      by blast
    with w(3) obtain m where n: "n = Suc m" "length ws' \<le> m" by (cases n) auto
    with u show "s \<in> lang (deriv c (AtMost n r))"
      by (auto simp: AtMost.IH)
  qed
qed auto

lemma test_lang: "test r s \<longleftrightarrow> s \<in> lang r"
  by (induction s arbitrary: r) (simp_all add: nullable_lang deriv_lang)

section \<open>Character classes and labels\<close>

lemma in_class_append: "in_class c (xs @ ys) \<longleftrightarrow> in_class c xs \<or> in_class c ys"
  by (induction xs) auto

lemma lang_Many_Chars: "s \<in> lang (Many (Chars cs)) \<longleftrightarrow> (\<forall>c\<in>set s. in_class c cs)"
proof
  assume "s \<in> lang (Many (Chars cs))"
  then obtain ws where "s = concat ws" "set ws \<subseteq> {[c] | c. in_class c cs}" by auto
  then show "\<forall>c\<in>set s. in_class c cs" by fastforce
next
  assume a: "\<forall>c\<in>set s. in_class c cs"
  have "s = concat (map (\<lambda>c. [c]) s)" by (induction s) simp_all
  moreover from a have "set (map (\<lambda>c. [c]) s) \<subseteq> {[c] | c. in_class c cs}" by auto
  ultimately show "s \<in> lang (Many (Chars cs))"
    unfolding lang.simps by blast
qed

lemma lang_SeqI: "u \<in> lang r \<Longrightarrow> v \<in> lang s \<Longrightarrow> u @ v \<in> lang (Seq r s)"
  by auto

lemma lang_CharsI: "in_class c cs \<Longrightarrow> [c] \<in> lang (Chars cs)"
  by simp

lemma lang_Seq_Chars:
  "s \<in> lang (Seq (Chars cs) r) \<longleftrightarrow> (\<exists>c v. s = c # v \<and> in_class c cs \<and> v \<in> lang r)"
proof
  assume "s \<in> lang (Seq (Chars cs) r)"
  then show "\<exists>c v. s = c # v \<and> in_class c cs \<and> v \<in> lang r" by auto
next
  assume "\<exists>c v. s = c # v \<and> in_class c cs \<and> v \<in> lang r"
  then obtain c v where "s = [c] @ v" "in_class c cs" "v \<in> lang r" by auto
  then show "s \<in> lang (Seq (Chars cs) r)"
    using lang_SeqI [OF lang_CharsI] by blast
qed

lemma lang_Many1_Chars:
  "s \<in> lang (Many1 (Chars cs)) \<longleftrightarrow> s \<noteq> [] \<and> (\<forall>c\<in>set s. in_class c cs)"
proof -
  have "s \<in> lang (Many1 (Chars cs)) \<longleftrightarrow>
      (\<exists>c v. s = c # v \<and> in_class c cs \<and> v \<in> lang (Many (Chars cs)))"
    unfolding Many1_def by (rule lang_Seq_Chars)
  also have "\<dots> \<longleftrightarrow> s \<noteq> [] \<and> (\<forall>c\<in>set s. in_class c cs)"
    unfolding lang_Many_Chars by (cases s) auto
  finally show ?thesis .
qed

lemma lang_AtMost_Chars:
  "s \<in> lang (AtMost n (Chars cs)) \<longleftrightarrow> length s \<le> n \<and> (\<forall>c\<in>set s. in_class c cs)"
proof
  assume "s \<in> lang (AtMost n (Chars cs))"
  then obtain ws where w: "s = concat ws" "set ws \<subseteq> {[c] | c. in_class c cs}" "length ws \<le> n"
    by auto
  from w(2) have "length (concat ws) = length ws"
    by (induction ws) auto
  with w show "length s \<le> n \<and> (\<forall>c\<in>set s. in_class c cs)" by fastforce
next
  assume a: "length s \<le> n \<and> (\<forall>c\<in>set s. in_class c cs)"
  have "s = concat (map (\<lambda>c. [c]) s)" by (induction s) simp_all
  moreover from a have "set (map (\<lambda>c. [c]) s) \<subseteq> {[c] | c. in_class c cs}"
    and "length (map (\<lambda>c. [c]) s) \<le> n" by auto
  ultimately show "s \<in> lang (AtMost n (Chars cs))"
    unfolding lang.simps by blast
qed

lemma test_Many1_Chars:
  "test (Many1 (Chars cs)) s \<longleftrightarrow> s \<noteq> [] \<and> list_all (\<lambda>c. in_class c cs) s"
  by (simp add: test_lang lang_Many1_Chars list_all_iff)

lemma startsWith_char: "startsWith s [c] \<longleftrightarrow> s \<noteq> [] \<and> hd s = c"
  by (cases s) (simp_all add: startsWith_def)

lemma endsWith_char: "endsWith s [c] \<longleftrightarrow> s \<noteq> [] \<and> last s = c"
proof (cases s rule: rev_cases)
  case Nil
  then show ?thesis by (simp add: endsWith_def)
next
  case (snoc ys y)
  then show ?thesis by (simp add: endsWith_def)
qed

lemma js_single: "js [c] = [ch c]"
  by (simp add: js_def)

lemma hyphen_or_alnum: "in_class c alnum_hyphen \<longleftrightarrow> in_class c alnum \<or> c = ch CHR ''-''"
  by (auto simp: alnum_hyphen_def in_class_append)

lemma label_lang:
  assumes "rule_label p"
  shows "p \<in> lang label"
proof -
  from assms have len: "1 \<le> length p" "length p \<le> 63"
    and all: "\<forall>c\<in>set p. in_class c alnum_hyphen"
    and ends: "hd p \<noteq> ch CHR ''-''" "last p \<noteq> ch CHR ''-''"
    by (auto simp: rule_label_def list_all_iff js_single startsWith_char endsWith_char)
  from len obtain a rest where p: "p = a # rest" by (cases p) auto
  with all ends have a: "in_class a alnum" by (simp add: hyphen_or_alnum)
  let ?tail = "Opt (Seq (AtMost 61 (Chars alnum_hyphen)) (Chars alnum))"
  have "rest \<in> lang ?tail"
  proof (cases rest rule: rev_cases)
    case Nil
    then show ?thesis by (simp add: Opt_def)
  next
    case (snoc mid z)
    with p all ends have "in_class z alnum" by (simp add: hyphen_or_alnum)
    moreover from snoc p all len have "mid \<in> lang (AtMost 61 (Chars alnum_hyphen))"
      unfolding lang_AtMost_Chars by simp
    ultimately have "rest \<in> lang (Seq (AtMost 61 (Chars alnum_hyphen)) (Chars alnum))"
      unfolding snoc by (intro lang_SeqI lang_CharsI)
    then show ?thesis by (simp add: Opt_def)
  qed
  with a have "[a] @ rest \<in> lang (Seq (Chars alnum) ?tail)"
    by (intro lang_SeqI lang_CharsI)
  with p show ?thesis by (simp add: label_def)
qed

section \<open>Splitting\<close>

declare lang.simps [simp del]

lemma lang_ManyI: "set ws \<subseteq> lang r \<Longrightarrow> concat ws \<in> lang (Many r)"
  unfolding lang.simps by blast

lemma split_no_sep: "c \<notin> set s \<Longrightarrow> split c s = [s]"
proof -
  assume "c \<notin> set s"
  then have "\<forall>x\<in>set s. x \<noteq> c" by auto
  then have d: "dropWhile (\<lambda>x. x \<noteq> c) s = []" and t: "takeWhile (\<lambda>x. x \<noteq> c) s = s"
    by simp_all
  show ?thesis by (subst split.simps) (simp only: d t list.case)
qed

lemma split_at_sep: "c \<notin> set p \<Longrightarrow> split c (p @ c # rest) = p # split c rest"
proof -
  assume "c \<notin> set p"
  then have "\<forall>x\<in>set p. x \<noteq> c" by auto
  then have d: "dropWhile (\<lambda>x. x \<noteq> c) (p @ c # rest) = c # rest"
    and t: "takeWhile (\<lambda>x. x \<noteq> c) (p @ c # rest) = p"
    by simp_all
  show ?thesis by (subst split.simps) (simp only: d t list.case)
qed

lemma at_sep:
  assumes "c \<in> set e"
  shows "e = takeWhile (\<lambda>x. x \<noteq> c) e @ c # drop 1 (dropWhile (\<lambda>x. x \<noteq> c) e)"
proof -
  from assms have "dropWhile (\<lambda>x. x \<noteq> c) e \<noteq> []" by simp
  then obtain y rest where d: "dropWhile (\<lambda>x. x \<noteq> c) e = y # rest"
    by (cases "dropWhile (\<lambda>x. x \<noteq> c) e") auto
  with hd_dropWhile [of "\<lambda>x. x \<noteq> c" e] have "y = c" by simp
  with d have "takeWhile (\<lambda>x. x \<noteq> c) e @ c # drop 1 (dropWhile (\<lambda>x. x \<noteq> c) e) =
      takeWhile (\<lambda>x. x \<noteq> c) e @ dropWhile (\<lambda>x. x \<noteq> c) e" by simp
  also have "\<dots> = e" by (rule takeWhile_dropWhile_id)
  finally show ?thesis by (rule sym)
qed

lemma takeWhile_no_sep: "c \<notin> set (takeWhile (\<lambda>x. x \<noteq> c) e)"
  using set_takeWhileD by fastforce

lemma one_sep:
  assumes "length (filter (\<lambda>x. x = c) e) = 1"
  shows "c \<in> set e" and "c \<notin> set (drop 1 (dropWhile (\<lambda>x. x \<noteq> c) e))"
proof -
  from assms have "filter (\<lambda>x. x = c) e \<noteq> []" by auto
  then show in_e: "c \<in> set e" by (auto simp: filter_empty_conv)
  let ?l = "takeWhile (\<lambda>x. x \<noteq> c) e" and ?d = "drop 1 (dropWhile (\<lambda>x. x \<noteq> c) e)"
  have "filter (\<lambda>x. x = c) ?l = []"
    using takeWhile_no_sep [of c e] by (auto simp: filter_empty_conv)
  moreover have "filter (\<lambda>x. x = c) e = filter (\<lambda>x. x = c) (?l @ c # ?d)"
    by (rule arg_cong [where f = "filter (\<lambda>x. x = c)", OF at_sep [OF in_e]])
  ultimately have "filter (\<lambda>x. x = c) e = c # filter (\<lambda>x. x = c) ?d" by simp
  with assms have "filter (\<lambda>x. x = c) ?d = []" by simp
  then have "\<forall>x\<in>set ?d. x \<noteq> c" by (simp only: filter_empty_conv)
  then show "c \<notin> set ?d" by blast
qed

lemma split_one_sep:
  assumes "length (filter (\<lambda>x. x = c) e) = 1"
  shows "split c e = [takeWhile (\<lambda>x. x \<noteq> c) e, drop 1 (dropWhile (\<lambda>x. x \<noteq> c) e)]"
proof -
  let ?l = "takeWhile (\<lambda>x. x \<noteq> c) e" and ?d = "drop 1 (dropWhile (\<lambda>x. x \<noteq> c) e)"
  have "split c e = split c (?l @ c # ?d)"
    by (rule arg_cong [where f = "split c", OF at_sep [OF one_sep(1) [OF assms]]])
  also have "\<dots> = ?l # split c ?d"
    by (rule split_at_sep) (rule takeWhile_no_sep)
  also have "split c ?d = [?d]"
    by (rule split_no_sep) (rule one_sep [OF assms])
  finally show ?thesis .
qed

lemma split_pieces:
  "\<forall>p\<in>set (split c s). p \<in> lang r \<Longrightarrow>
     \<exists>p ps. s = p @ concat ps \<and> p \<in> lang r \<and> set ps \<subseteq> lang (Seq (Chars [(c, c)]) r)"
proof (induction c s rule: split.induct)
  case (1 c s)
  let ?l = "takeWhile (\<lambda>x. x \<noteq> c) s"
  show ?case
  proof (cases "dropWhile (\<lambda>x. x \<noteq> c) s")
    case Nil
    then have "c \<notin> set s" by auto
    with "1.prems" have "s \<in> lang r" by (simp add: split_no_sep)
    then show ?thesis by (intro exI [of _ s] exI [of _ "[]"]) simp
  next
    case (Cons y rest)
    with hd_dropWhile [of "\<lambda>x. x \<noteq> c" s] have y: "y = c" by simp
    have "?l @ c # rest = ?l @ dropWhile (\<lambda>x. x \<noteq> c) s"
      by (simp only: Cons y)
    also have "\<dots> = s" by (rule takeWhile_dropWhile_id)
    finally have s: "?l @ c # rest = s" .
    have sp: "split c s = ?l # split c rest"
      by (simp add: split.simps [of c s] Cons)
    with "1.prems" have l: "?l \<in> lang r" and "\<forall>p\<in>set (split c rest). p \<in> lang r" by simp_all
    from "1.IH" [OF Cons this(2)] obtain q qs where
      q: "rest = q @ concat qs" "q \<in> lang r" "set qs \<subseteq> lang (Seq (Chars [(c, c)]) r)" by blast
    have "[c] @ q \<in> lang (Seq (Chars [(c, c)]) r)"
      by (intro lang_SeqI lang_CharsI q(2)) simp
    then have "c # q \<in> lang (Seq (Chars [(c, c)]) r)" by simp
    moreover have "?l @ concat ((c # q) # qs) = ?l @ c # rest"
      by (simp add: q(1))
    ultimately have "s = ?l @ concat ((c # q) # qs)" "set ((c # q) # qs) \<subseteq> lang (Seq (Chars [(c, c)]) r)"
      using s q(3) by simp_all
    with l show ?thesis by blast
  qed
qed

lemma domain_lang:
  assumes "list_all rule_label (split (ch CHR ''.'') d)"
  shows "d \<in> lang (Seq label (Many (Seq (Lit CHR ''.'') label)))"
proof -
  from assms have "\<forall>p\<in>set (split (ch CHR ''.'') d). p \<in> lang label"
    by (simp add: list_all_iff label_lang)
  from split_pieces [OF this] obtain p ps where
    "d = p @ concat ps" "p \<in> lang label" "set ps \<subseteq> lang (Seq (Lit CHR ''.'') label)"
    unfolding Lit_def by blast
  then show ?thesis
    by (simp add: lang_SeqI lang_ManyI)
qed

section \<open>The validator against the rules\<close>

lemma validateLocalPart_iff: "validateLocalPart (Some l) \<longleftrightarrow> rule_local l"
  by (auto simp: rule_local_def Suc_le_eq)

lemma checkParts_iff: "checkParts ps \<longleftrightarrow> list_all rule_label ps"
  by (induction ps) (auto simp: rule_label_def test_Many1_Chars Suc_le_eq)

lemma split_Nil: "split c [] = [[]]"
  by (simp add: split_no_sep)

lemma rule_domain_nonempty: "rule_domain d \<Longrightarrow> d \<noteq> []"
  by (auto simp: rule_domain_def split_Nil)

lemma validateDomainPart_iff:
  "validateDomainPart (Some d) \<longleftrightarrow> d \<noteq> [] \<and> length d \<le> 253 \<and> rule_domain d"
proof (cases "2 \<le> length (split (ch CHR ''.'') d)")
  case True
  then have "split (ch CHR ''.'') d \<noteq> []" by auto
  then have "split (ch CHR ''.'') d ! (length (split (ch CHR ''.'') d) - 1) = last (split (ch CHR ''.'') d)"
    by (simp add: last_conv_nth)
  with True show ?thesis
    by (auto simp: rule_domain_def Let_def checkParts_iff test_Many1_Chars)
next
  case False
  then show ?thesis
    by (auto simp: rule_domain_def Let_def)
qed

lemma at_index_pair:
  "at_index [a, b] 0 = Some a" "at_index [a, b] 1 = Some b" "at_index [a, b] (Suc 0) = Some b"
  by (simp_all add: at_index_def)

lemma validateEmailStructure_iff:
  "validateEmailStructure e \<longleftrightarrow>
     length (filter (\<lambda>c. c = ch CHR ''@'') e) = 1 \<and> rule_local (local_of e)
     \<and> length (domain_of e) \<le> 253 \<and> rule_domain (domain_of e)"
proof (cases "length (filter (\<lambda>c. c = ch CHR ''@'') e) = 1")
  case True
  have sp: "split (ch CHR ''@'') e = [local_of e, domain_of e]"
    using split_one_sep [OF True] by (simp only: local_of_def domain_of_def)
  have "validateEmailStructure e \<longleftrightarrow>
      validateLocalPart (Some (local_of e)) \<and> validateDomainPart (Some (domain_of e))"
    unfolding validateEmailStructure_def Let_def sp at_index_pair using True by simp
  also have "\<dots> \<longleftrightarrow> rule_local (local_of e) \<and> domain_of e \<noteq> []
      \<and> length (domain_of e) \<le> 253 \<and> rule_domain (domain_of e)"
    by (simp only: validateLocalPart_iff validateDomainPart_iff)
  also have "\<dots> \<longleftrightarrow> rule_local (local_of e)
      \<and> length (domain_of e) \<le> 253 \<and> rule_domain (domain_of e)"
    using rule_domain_nonempty [of "domain_of e"] by blast
  finally show ?thesis
    using True by simp
next
  case False
  then show ?thesis by (simp add: validateEmailStructure_def)
qed

lemma at_not_local: "\<not> in_class (ch CHR ''@'') local_chars"
  by (simp add: local_chars_def alnum_def)

lemma lang_SeqE:
  assumes "s \<in> lang (Seq r r')"
  obtains u v where "s = u @ v" "u \<in> lang r" "v \<in> lang r'"
  using assms unfolding lang.simps by blast

lemma regex_local:
  assumes "test emailRegex e"
  shows "list_all (\<lambda>c. in_class c local_chars) (local_of e)"
proof -
  from assms have "e \<in> lang emailRegex" by (simp add: test_lang)
  then obtain u v where uv: "e = u @ v" "u \<in> lang (Many1 (Chars local_chars))"
    "v \<in> lang (Seq (Lit CHR ''@'') (Seq label (Many (Seq (Lit CHR ''.'') label))))"
    unfolding emailRegex_def by (rule lang_SeqE)
  from uv(3) obtain c v' where v: "v = c # v'" "in_class c [(ch CHR ''@'', ch CHR ''@'')]"
    unfolding Lit_def lang_Seq_Chars by blast
  then have c: "c = ch CHR ''@''" by auto
  from uv(2) have u: "\<forall>x\<in>set u. in_class x local_chars"
    by (simp add: lang_Many1_Chars)
  with at_not_local have "\<forall>x\<in>set u. x \<noteq> ch CHR ''@''" by auto
  then have "takeWhile (\<lambda>x. x \<noteq> ch CHR ''@'') (u @ ch CHR ''@'' # v') = u"
    by simp
  with uv(1) v(1) c have "local_of e = u" by (simp add: local_of_def)
  with u show ?thesis by (simp add: list_all_iff)
qed

lemma email_parts:
  assumes "length (filter (\<lambda>c. c = ch CHR ''@'') e) = 1"
  shows "local_of e @ ch CHR ''@'' # domain_of e = e"
  using at_sep [OF one_sep(1) [OF assms]] by (simp add: local_of_def domain_of_def)

lemma rules_regex:
  assumes "rules e" and "rule_local_chars e"
  shows "test emailRegex e"
proof -
  from assms(1) have one: "length (filter (\<lambda>c. c = ch CHR ''@'') e) = 1"
    and l: "rule_local (local_of e)" and d: "rule_domain (domain_of e)"
    by (simp_all add: rules_def)
  from l assms(2) have "local_of e \<in> lang (Many1 (Chars local_chars))"
    by (auto simp: lang_Many1_Chars rule_local_def rule_local_chars_def list_all_iff)
  moreover have "[ch CHR ''@''] \<in> lang (Lit CHR ''@'')"
    unfolding Lit_def by (rule lang_CharsI) simp
  moreover from d have "domain_of e \<in> lang (Seq label (Many (Seq (Lit CHR ''.'') label)))"
    by (intro domain_lang) (simp add: rule_domain_def Let_def)
  ultimately have "local_of e @ [ch CHR ''@''] @ domain_of e \<in> lang emailRegex"
    unfolding emailRegex_def by (intro lang_SeqI)
  then show ?thesis
    using email_parts [OF one] by (simp add: test_lang)
qed

lemma domain_length:
  assumes "length (filter (\<lambda>c. c = ch CHR ''@'') e) = 1" and "length e \<le> 254"
  shows "length (domain_of e) \<le> 253"
proof -
  have "length e = length (local_of e @ ch CHR ''@'' # domain_of e)"
    by (simp only: email_parts [OF assms(1)])
  with assms(2) show ?thesis by simp
qed

lemma code_checks_iff:
  assumes "length e \<le> 254"
  shows "test emailRegex e \<and> validateEmailStructure e \<longleftrightarrow> rules e \<and> rule_local_chars e"
proof
  assume a: "test emailRegex e \<and> validateEmailStructure e"
  then have "rules e" by (simp add: validateEmailStructure_iff rules_def)
  moreover from a have "rule_local_chars e" by (simp add: regex_local rule_local_chars_def)
  ultimately show "rules e \<and> rule_local_chars e" ..
next
  assume a: "rules e \<and> rule_local_chars e"
  then have "test emailRegex e" by (simp add: rules_regex)
  moreover from a assms have "validateEmailStructure e"
    by (simp add: validateEmailStructure_iff rules_def domain_length)
  ultimately show "test emailRegex e \<and> validateEmailStructure e" ..
qed

text \<open>
  C1, as the code has it. For every input string \<open>validate\<close> returns the result of the
  steps of the specification in their order (REQUIRED when the trimmed string is empty,
  TOO_SHORT when it is shorter than 5, TOO_LONG when it is longer than 254,
  INVALID_FORMAT when it breaks a rule, and valid otherwise), where the rules on the
  trimmed string are the structural ones (one \<open>@\<close>; local part of length 1 to 64 with no
  \<open>.\<close> at either end and no \<open>..\<close>; domain of two labels or more between dots, each of
  length 1 to 63, of \<open>[A-Za-z0-9-]\<close> with no \<open>-\<close> at either end, the last of two letters or
  more) and one more: the local part has only letters, digits and the characters
  \<open>.!#$%&'*+/=?^_`{|}~-\<close>.
\<close>

theorem validate_classifies:
  "validate raw = report (classify (\<lambda>e. rules e \<and> rule_local_chars e) raw)"
proof -
  have empty: "(raw = [] \<or> trim raw = []) \<longleftrightarrow> trim raw = []"
    using trim_Nil by auto
  show ?thesis
  proof (cases "trim raw = [] \<or> length (trim raw) < 5 \<or> length (trim raw) > 254")
    case True
    then show ?thesis
      unfolding validate_def classify_def Let_def empty minLength_def maxLength_def
      by auto
  next
    case False
    then have "length (trim raw) \<le> 254" by simp
    from code_checks_iff [OF this] False show ?thesis
      unfolding validate_def classify_def Let_def empty minLength_def maxLength_def
      by auto
  qed
qed

text \<open>
  The claim C1 as stated has every string that satisfies the structural rules valid: it
  fails on an address with a space in the local part, which satisfies them and which
  \<open>emailRegex\<close> rejects.
\<close>

theorem space_in_local_part_rejected:
  "classify rules (js ''john doe@example.com'') = VALID
   \<and> validate (js ''john doe@example.com'') = \<lparr>isValid = False, message = MESSAGES_invalid\<rparr>"
  by code_simp

section \<open>What the storage methods compute\<close>

lemmas comp_defs = bind_def try_catch_def return_def throw_def getItem_def setItem_def
  removeItem_def JSON_stringify_def

lemma keys_differ: "storageKey \<noteq> rateLimitKey"
  by (simp add: storageKey_def rateLimitKey_def js_def)

lemma field_names_differ: "js ''timestamp'' \<noteq> js ''attempts''"
  by (simp add: js_def)

lemma getProp_pure [dest]: "getProp v k st = (r, st') \<Longrightarrow> st' = st"
  by (induction v k rule: getProp.induct) (auto simp: return_def throw_def)

lemma setProp_pure [dest]: "setProp v k x st = (r, st') \<Longrightarrow> st' = st"
  by (induction v k x rule: setProp.induct) (auto simp: return_def throw_def)

lemma JSON_parse_pure [dest]: "JSON_parse t st = (r, st') \<Longrightarrow> st' = st"
  by (cases t) (auto simp: return_def throw_def)

lemma includes_value_pure [dest]: "includes_value v x st = (r, st') \<Longrightarrow> st' = st"
  by (induction v x rule: includes_value.induct) (auto simp: return_def throw_def)

lemma push_pure [dest]: "push v x st = (r, st') \<Longrightarrow> st' = st"
  by (induction v x rule: push.induct) (auto simp: return_def throw_def)

lemma getSubmissions_eq: "getSubmissions st = (Inr (persisted st), st)"
  by (simp add: getSubmissions_def persisted_def comp_defs split: option.splits stored.splits)

lemma wasEmailSubmitted_eq:
  "wasEmailSubmitted lc email st =
     (Inr (case persisted st of Arr xs \<Rightarrow> Str (lc email) \<in> set xs
           | Str s \<Rightarrow> str_includes s (lc email) | _ \<Rightarrow> False), st)"
  by (simp add: wasEmailSubmitted_def bind_def try_catch_def getSubmissions_eq return_def throw_def
      split: json.splits)

lemma storeSubmission_eq:
  "storeSubmission lc email st =
     (Inr (), case persisted st of
        Arr xs \<Rightarrow>
          if setItemThrows st storageKey (Encodes (Arr (xs @ [Str (lc email)]))) then st
          else st\<lparr>items := (items st)(storageKey \<mapsto> Encodes (Arr (xs @ [Str (lc email)])))\<rparr>
      | _ \<Rightarrow> st)"
  by (simp add: storeSubmission_def bind_def try_catch_def getSubmissions_eq return_def throw_def
      setItem_def JSON_stringify_def split: json.splits)

lemma try_catch_return_total: "\<exists>x st'. try_catch m (\<lambda>e. return v) st = (Inr x, st')"
  by (cases "m st") (auto simp: try_catch_def return_def split: sum.splits)

lemma isRateLimited_total: "\<exists>b st'. isRateLimited now st = (Inr b, st')"
  unfolding isRateLimited_def by (rule try_catch_return_total)

lemma recordAttempt_total: "\<exists>st'. recordAttempt now st = (Inr (), st')"
  using try_catch_return_total [where v = "()"] unfolding recordAttempt_def by simp

lemma isRateLimited_frame:
  "isRateLimited now st = (r, st') \<Longrightarrow>
     st' = st \<or> (r = Inr False \<and> st' = st\<lparr>items := (items st)(rateLimitKey := None)\<rparr>)"
  by (auto simp: isRateLimited_def comp_defs split: if_splits option.splits stored.splits sum.splits prod.splits)

lemma recordAttempt_frame:
  "recordAttempt now st = (r, st') \<Longrightarrow>
     st' = st \<or> (\<exists>v. st' = st\<lparr>items := (items st)(rateLimitKey \<mapsto> v)\<rparr>)"
  by (auto simp: recordAttempt_def comp_defs split: if_splits option.splits stored.splits sum.splits prod.splits)

lemma persisted_frame [simp]:
  "persisted (st\<lparr>items := (items st)(rateLimitKey := x)\<rparr>) = persisted st"
  using keys_differ by (simp add: persisted_def)

lemma map_of_put: "map_of (put k v kvs) k' = (if k' = k then Some v else map_of kvs k')"
  by (induction kvs) auto

lemma messages_differ:
  "MESSAGES_alreadySubscribed \<noteq> MESSAGES_rateLimited"
  "MESSAGES_networkError \<noteq> MESSAGES_rateLimited"
  "MESSAGES_networkError \<noteq> MESSAGES_alreadySubscribed"
  by (simp_all add: MESSAGES_alreadySubscribed_def MESSAGES_rateLimited_def
      MESSAGES_networkError_def js_def)

lemma rateLimitField_other [simp]:
  "rateLimitField (st\<lparr>items := (items st)(storageKey := x)\<rparr>) k = rateLimitField st k"
  using keys_differ by (simp add: rateLimitField_def)

lemma wellFormed_cases:
  assumes "wellFormed st"
  obtains (absent) "items st rateLimitKey = None" "attemptCount st = None" "windowStart st = None"
  | (present) kvs t n where "items st rateLimitKey = Some (Encodes (Obj kvs))"
      "map_of kvs (js ''timestamp'') = Some (Num t)" "map_of kvs (js ''attempts'') = Some (Num n)"
      "attemptCount st = Some n" "windowStart st = Some t"
proof (cases "items st rateLimitKey")
  case None
  then show ?thesis
    by (intro absent) (simp_all add: attemptCount_def windowStart_def rateLimitField_def)
next
  case (Some x)
  with assms have "attemptCount st \<noteq> None" and "windowStart st \<noteq> None"
    by (simp_all add: wellFormed_def)
  with Some show ?thesis
    by (intro present [of "case x of Encodes (Obj kvs) \<Rightarrow> kvs" "the (windowStart st)" "the (attemptCount st)"])
       (auto simp: attemptCount_def windowStart_def rateLimitField_def
         split: stored.splits json.splits option.splits prim.splits)
qed

lemma rateLimitField_stored:
  "rateLimitField (st\<lparr>items := (items st)(rateLimitKey \<mapsto> Encodes (Obj kvs))\<rparr>) k =
     (case map_of kvs k of Some (Num n) \<Rightarrow> Some n | _ \<Rightarrow> None)"
  by (simp add: rateLimitField_def)

lemma recordAttempt_absent:
  assumes "\<not> getItemThrows st rateLimitKey" and "items st rateLimitKey = None"
    and "\<not> setItemThrows st rateLimitKey
           (Encodes (Obj [(js ''timestamp'', Num now), (js ''attempts'', Num 1)]))"
  shows "recordAttempt now st = (Inr (), st\<lparr>items := (items st)(rateLimitKey \<mapsto>
     Encodes (Obj [(js ''timestamp'', Num now), (js ''attempts'', Num 1)]))\<rparr>)"
  using assms by (simp add: recordAttempt_def comp_defs)

lemma recordAttempt_present:
  assumes "\<not> getItemThrows st rateLimitKey"
    and "items st rateLimitKey = Some (Encodes (Obj kvs))"
    and "\<not> setItemThrows st rateLimitKey (Encodes (Obj (put (js ''timestamp'') (Num now)
           (put (js ''attempts'') (or_zero_plus_one (map_of kvs (js ''attempts''))) kvs))))"
  shows "recordAttempt now st = (Inr (), st\<lparr>items := (items st)(rateLimitKey \<mapsto>
     Encodes (Obj (put (js ''timestamp'') (Num now)
           (put (js ''attempts'') (or_zero_plus_one (map_of kvs (js ''attempts''))) kvs))))\<rparr>)"
  using assms by (simp add: recordAttempt_def comp_defs)

lemma working_stored [simp]: "working (st\<lparr>items := f\<rparr>) = working st"
  by (simp add: working_def)

lemma wellFormed_stored:
  "map_of kvs (js ''timestamp'') = Some (Num t) \<Longrightarrow> map_of kvs (js ''attempts'') = Some (Num n)
   \<Longrightarrow> wellFormed (st\<lparr>items := (items st)(rateLimitKey \<mapsto> Encodes (Obj kvs))\<rparr>)"
  by (simp add: wellFormed_def attemptCount_def windowStart_def rateLimitField_def)

lemma recordAttempt_count:
  assumes w: "working st" and "wellFormed st"
  shows "\<exists>st'. recordAttempt now st = (Inr (), st') \<and> working st' \<and> wellFormed st'
     \<and> windowStart st' = Some now
     \<and> attemptCount st' = Some (case attemptCount st of None \<Rightarrow> 1 | Some n \<Rightarrow> n + 1)
     \<and> items st' storageKey = items st storageKey"
  using \<open>wellFormed st\<close>
proof (cases rule: wellFormed_cases)
  case absent
  from w have "recordAttempt now st = (Inr (), st\<lparr>items := (items st)(rateLimitKey \<mapsto>
     Encodes (Obj [(js ''timestamp'', Num now), (js ''attempts'', Num 1)]))\<rparr>)"
    by (intro recordAttempt_absent absent) (simp_all add: working_def)
  then show ?thesis
    using w absent keys_differ field_names_differ
    by (simp add: wellFormed_stored attemptCount_def windowStart_def rateLimitField_stored)
next
  case (present kvs t n)
  let ?kvs = "put (js ''timestamp'') (Num now)
           (put (js ''attempts'') (or_zero_plus_one (map_of kvs (js ''attempts''))) kvs)"
  from w have "recordAttempt now st = (Inr (), st\<lparr>items := (items st)(rateLimitKey \<mapsto>
     Encodes (Obj ?kvs))\<rparr>)"
    by (intro recordAttempt_present present) (simp_all add: working_def)
  moreover have "map_of ?kvs (js ''timestamp'') = Some (Num now)"
    and "map_of ?kvs (js ''attempts'') = Some (Num (n + 1))"
    using present field_names_differ by (simp_all add: map_of_put)
  ultimately show ?thesis
    using w present keys_differ
    by (simp add: wellFormed_stored attemptCount_def [of "st\<lparr>items := _\<rparr>"]
        windowStart_def [of "st\<lparr>items := _\<rparr>"] rateLimitField_stored)
qed

lemma isRateLimited_keeps:
  assumes "isRateLimited now st = (r, st')"
  shows "(working st \<longrightarrow> working st') \<and> (wellFormed st \<longrightarrow> wellFormed st')
     \<and> items st' storageKey = items st storageKey
     \<and> getItemThrows st' = getItemThrows st \<and> setItemThrows st' = setItemThrows st"
  using isRateLimited_frame [OF assms] keys_differ
  by (auto simp: working_def wellFormed_def)

lemma isRateLimited_present:
  assumes "\<not> getItemThrows st rateLimitKey" and "\<not> removeItemThrows st rateLimitKey"
    and "items st rateLimitKey = Some (Encodes (Obj kvs))"
    and "map_of kvs (js ''timestamp'') = Some (Num t)"
    and "map_of kvs (js ''attempts'') = Some (Num n)"
  shows "isRateLimited now st =
    (if now - t > fiveMinutes then (Inr False, st\<lparr>items := (items st)(rateLimitKey := None)\<rparr>)
     else (Inr (n \<ge> 3), st))"
  using assms
  by (simp add: isRateLimited_def comp_defs elapsed_exceeds_def at_least_def)

lemma submitEmail_eq:
  assumes "isRateLimited now1 st = (Inr limited, st1)"
    and "recordAttempt now2 st1 = (Inr (), st2)"
  shows "submitEmail lc email now1 now2 unlucky st =
    (if limited then (Inl (Error MESSAGES_rateLimited), st1)
     else if fst (wasEmailSubmitted lc email st2) = Inr True
       then (Inl (Error MESSAGES_alreadySubscribed), st2)
     else if unlucky then (Inl (Error MESSAGES_networkError), st2)
     else (Inr \<lparr>success = True, message = MESSAGES_success\<rparr>, snd (storeSubmission lc email st2)))"
  using assms
  by (simp add: submitEmail_def bind_def throw_def return_def wasEmailSubmitted_eq
      storeSubmission_eq)

lemma persisted_cong:
  "items st' storageKey = items st storageKey \<Longrightarrow> getItemThrows st' = getItemThrows st
   \<Longrightarrow> persisted st' = persisted st"
  by (simp add: persisted_def)

lemma storeSubmission_frame:
  "items (snd (storeSubmission lc email st)) rateLimitKey = items st rateLimitKey"
  using keys_differ by (simp add: storeSubmission_eq split: json.splits)

lemma attemptCount_removed [simp]:
  "attemptCount (st\<lparr>items := (items st)(rateLimitKey := None)\<rparr>) = None"
  by (simp add: attemptCount_def rateLimitField_def)

lemma wellFormed_removed [simp]:
  "wellFormed (st\<lparr>items := (items st)(rateLimitKey := None)\<rparr>)"
  by (simp add: wellFormed_def)

lemma run_Nil [simp]: "run [] st = st"
  by (simp add: run_def)

lemma run_Cons [simp]: "run (c # cs) st = run cs (perform c st)"
  by (simp add: run_def)

lemma run_append: "run (cs @ ds) st = run ds (run cs st)"
  by (simp add: run_def)

lemma isRateLimited_working:
  assumes "working st" and "wellFormed st"
  shows "isRateLimited now st =
    (if expired now st then (Inr False, st\<lparr>items := (items st)(rateLimitKey := None)\<rparr>)
     else (Inr (case attemptCount st of None \<Rightarrow> False | Some n \<Rightarrow> 3 \<le> n), st))"
  using assms(2)
proof (cases rule: wellFormed_cases)
  case absent
  with assms(1) show ?thesis
    by (simp add: isRateLimited_def comp_defs working_def expired_def)
next
  case (present kvs t n)
  from assms(1) have "\<not> getItemThrows st rateLimitKey" "\<not> removeItemThrows st rateLimitKey"
    by (simp_all add: working_def)
  from isRateLimited_present [OF this present(1-3)] present(4,5) show ?thesis
    by (simp add: expired_def)
qed

lemma perform_keeps:
  assumes "working st" and "wellFormed st"
  shows "working (perform c st) \<and> wellFormed (perform c st) \<and> window_step c st (perform c st)"
proof (cases c)
  case (IsRateLimited now)
  then show ?thesis
    using assms by (simp add: isRateLimited_working)
next
  case (RecordAttempt now)
  with recordAttempt_count [OF assms, of now] show ?thesis
    by auto
qed

lemma run_keeps:
  assumes "working st" and "wellFormed st"
  shows "working (run cs st) \<and> wellFormed (run cs st)"
  using assms by (induction cs arbitrary: st) (simp_all add: perform_keeps)

lemma window_steps_hold:
  assumes "working st" and "wellFormed st"
  shows "window_steps cs st"
  using assms by (induction cs arbitrary: st) (simp_all add: perform_keeps)

lemma perform_nonneg:
  assumes "working st" and "wellFormed st" and "nonneg st"
  shows "nonneg (perform c st)"
proof (cases c)
  case (IsRateLimited now)
  with assms show ?thesis
    by (simp add: isRateLimited_working nonneg_def)
next
  case (RecordAttempt now)
  with perform_keeps [OF assms(1,2), of c] assms(3) show ?thesis
    by (simp add: nonneg_def split: option.splits)
qed

lemma run_nonneg:
  assumes "working st" and "wellFormed st" and "nonneg st"
  shows "nonneg (run cs st)"
  using assms by (induction cs arbitrary: st) (simp_all add: perform_keeps perform_nonneg)

lemma run_in_window:
  assumes "working st" and "wellFormed st"
    and "windowStart st = Some ts" and "attemptCount st = Some k" and "t1 \<le> ts"
    and "within t1 cs"
  shows "working (run cs st) \<and> wellFormed (run cs st)
     \<and> windowStart (run cs st) = Some (latest ts cs)
     \<and> attemptCount (run cs st) = Some (k + int (length (filter is_attempt cs)))"
  using assms
proof (induction cs arbitrary: st ts k)
  case Nil
  then show ?case by simp
next
  case (Cons c cs)
  from Cons.prems(6) have c: "t1 \<le> time_of c" "time_of c \<le> t1 + fiveMinutes" and cs: "within t1 cs"
    by (simp_all add: within_def)
  show ?case
  proof (cases c)
    case (IsRateLimited now)
    with c Cons.prems(3,5) have "\<not> expired now st"
      by (simp add: expired_def)
    with Cons.prems(1,2) have "perform c st = st"
      by (simp add: IsRateLimited isRateLimited_working)
    with Cons.IH [OF Cons.prems(1-5) cs] show ?thesis
      by (simp add: IsRateLimited)
  next
    case (RecordAttempt now)
    from perform_keeps [OF Cons.prems(1,2), of c] Cons.prems(4)
    have "working (perform c st)" "wellFormed (perform c st)"
      "windowStart (perform c st) = Some now" "attemptCount (perform c st) = Some (k + 1)"
      by (simp_all add: RecordAttempt)
    from Cons.IH [OF this _ cs] c show ?thesis
      by (simp add: RecordAttempt)
  qed
qed

lemma fresh_simps [simp]:
  "items freshStore k = None" "\<not> getItemThrows freshStore k"
  "\<not> setItemThrows freshStore k v" "\<not> removeItemThrows freshStore k"
  by (simp_all add: freshStore_def)

lemma working_fresh: "working freshStore"
  by (simp add: working_def)

lemma wellFormed_fresh: "wellFormed freshStore"
  by (simp add: wellFormed_def)

lemma limited_simps:
  "items (limitedStore t n) rateLimitKey =
     Some (Encodes (Obj [(js ''timestamp'', Num t), (js ''attempts'', Num n)]))"
  "items (limitedStore t n) storageKey = None"
  "getItemThrows (limitedStore t n) = (\<lambda>k. False)"
  "setItemThrows (limitedStore t n) = (\<lambda>k v. False)"
  "removeItemThrows (limitedStore t n) = (\<lambda>k. False)"
  using keys_differ by (simp_all add: limitedStore_def freshStore_def)

lemma limited_fields:
  "attemptCount (limitedStore t n) = Some n" "windowStart (limitedStore t n) = Some t"
  using field_names_differ
  by (simp_all add: attemptCount_def windowStart_def rateLimitField_def limited_simps)

lemma limited_check:
  "isRateLimited now (limitedStore t n) =
    (if now - t > fiveMinutes then
       (Inr False, (limitedStore t n)\<lparr>items := (items (limitedStore t n))(rateLimitKey := None)\<rparr>)
     else (Inr (n \<ge> 3), limitedStore t n))"
  using field_names_differ
  by (intro isRateLimited_present [where kvs = "[(js ''timestamp'', Num t), (js ''attempts'', Num n)]"])
     (simp_all add: limited_simps)

lemma seeded_simps:
  "items (seededStore es) storageKey = Some (Encodes (Arr (map Str es)))"
  "items (seededStore es) rateLimitKey = None"
  "getItemThrows (seededStore es) = (\<lambda>k. False)"
  "setItemThrows (seededStore es) = (\<lambda>k v. False)"
  "removeItemThrows (seededStore es) = (\<lambda>k. False)"
  using keys_differ by (simp_all add: seededStore_def freshStore_def)

lemma seeded_check: "isRateLimited now (seededStore es) = (Inr False, seededStore es)"
  by (simp add: isRateLimited_def comp_defs seeded_simps)

lemma seeded_facts:
  "working (seededStore es)" "wellFormed (seededStore es)" "attemptCount (seededStore es) = None"
  "getSubmissions (seededStore es) = (Inr (Arr (map Str es)), seededStore es)"
  by (simp_all add: working_def wellFormed_def attemptCount_def rateLimitField_def seeded_simps
      getSubmissions_eq persisted_def)

lemma fresh_check: "isRateLimited now freshStore = (Inr False, freshStore)"
  by (simp add: isRateLimited_def comp_defs)

lemma fresh_facts:
  "attemptCount freshStore = None" "getSubmissions freshStore = (Inr (Arr []), freshStore)"
  by (simp_all add: attemptCount_def rateLimitField_def getSubmissions_eq persisted_def)

lemma asciiLower_examples:
  "asciiLower (js ''new@example.com'') = js ''new@example.com''"
  "asciiLower (js ''dup@example.com'') = js ''dup@example.com''"
  "asciiLower (js ''Dup@Example.COM'') = js ''dup@example.com''"
  "asciiLower (js '' dup@example.com'') = js '' dup@example.com''"
  "asciiLower (js '' a@b.co'') = js '' a@b.co''"
  by (simp_all add: asciiLower_def js_def)

lemmas eval_defs = comp_defs isRateLimited_def recordAttempt_def getSubmissions_def
  wasEmailSubmitted_def storeSubmission_def submitEmail_def freshStore_def
  elapsed_exceeds_def at_least_def fiveMinutes_def attemptCount_def windowStart_def
  rateLimitField_def asciiLower_def storageKey_def rateLimitKey_def js_def

section \<open>The submission store\<close>

text \<open>
  C9. For every email and every state of the storage, \<open>wasEmailSubmitted\<close> leaves the
  storage as it found it, so that two calls in a row, with no \<open>storeSubmission\<close> between
  them, return the same result.
\<close>

theorem wasEmailSubmitted_repeatable:
  "\<exists>b. wasEmailSubmitted lc e st = (Inr b, st)
     \<and> bind (wasEmailSubmitted lc e) (\<lambda>first.
         bind (wasEmailSubmitted lc e) (\<lambda>second. return (first, second))) st
       = (Inr (b, b), st)"
  by (simp add: wasEmailSubmitted_eq bind_def return_def)

text \<open>
  C4, as the code has it. The email is lower-cased, and not trimmed, before the
  comparison and before the storage: when the stored set is the array \<open>xs\<close>,
  \<open>wasEmailSubmitted\<close> answers whether the lower-cased email is an element of \<open>xs\<close>, and
  \<open>storeSubmission\<close> appends the lower-cased email to \<open>xs\<close> (unless the write throws);
  in every state two emails with the same lower-casing get the same answer.
\<close>

theorem membership_on_lowercase:
  "(getSubmissions st = (Inr (Arr xs), st) \<longrightarrow>
      wasEmailSubmitted lc e st = (Inr (Str (lc e) \<in> set xs), st)
      \<and> (\<not> setItemThrows st storageKey (Encodes (Arr (xs @ [Str (lc e)]))) \<longrightarrow>
           storeSubmission lc e st =
             (Inr (), st\<lparr>items := (items st)(storageKey \<mapsto> Encodes (Arr (xs @ [Str (lc e)])))\<rparr>)))
   \<and> (lc e = lc e' \<longrightarrow> wasEmailSubmitted lc e st = wasEmailSubmitted lc e' st)"
proof (intro conjI impI)
  assume "getSubmissions st = (Inr (Arr xs), st)"
  then have p: "persisted st = Arr xs"
    by (simp add: getSubmissions_eq)
  show "wasEmailSubmitted lc e st = (Inr (Str (lc e) \<in> set xs), st)"
    by (simp add: wasEmailSubmitted_eq p)
  assume "\<not> setItemThrows st storageKey (Encodes (Arr (xs @ [Str (lc e)])))"
  then show "storeSubmission lc e st =
      (Inr (), st\<lparr>items := (items st)(storageKey \<mapsto> Encodes (Arr (xs @ [Str (lc e)])))\<rparr>)"
    by (simp add: storeSubmission_eq p)
next
  assume same: "lc e = lc e'"
  show "wasEmailSubmitted lc e st = wasEmailSubmitted lc e' st"
    unfolding wasEmailSubmitted_def same ..
qed

theorem membership_on_lowercase_witness:
  "getSubmissions (seededStore [js ''dup@example.com'']) =
     (Inr (Arr [Str (js ''dup@example.com'')]), seededStore [js ''dup@example.com''])
   \<and> asciiLower (js ''Dup@Example.COM'') = asciiLower (js ''dup@example.com'')
   \<and> fst (wasEmailSubmitted asciiLower (js ''Dup@Example.COM'')
          (seededStore [js ''dup@example.com''])) = Inr True
   \<and> items (snd (storeSubmission asciiLower (js ''Dup@Example.COM'')
          (seededStore [js ''dup@example.com'']))) storageKey =
       Some (Encodes (Arr [Str (js ''dup@example.com''), Str (js ''dup@example.com'')]))"
proof -
  have a: "getSubmissions (seededStore [js ''dup@example.com'']) =
     (Inr (Arr [Str (js ''dup@example.com'')]), seededStore [js ''dup@example.com''])"
    by (simp add: seeded_facts)
  from membership_on_lowercase [of "seededStore [js ''dup@example.com'']"
      "[Str (js ''dup@example.com'')]" asciiLower "js ''Dup@Example.COM''" "js ''dup@example.com''"]
  show ?thesis
    using a by (simp add: asciiLower_examples seeded_simps)
qed

text \<open>
  The claim C4 as stated has the email trimmed as well: it fails on an email with a
  leading space, whose normalized form is in the set while \<open>wasEmailSubmitted\<close> answers
  false.
\<close>

theorem membership_not_trimmed:
  "fst (wasEmailSubmitted asciiLower (js '' a@b.co'') (seededStore [js ''a@b.co''])) = Inr False
   \<and> Str (normalize asciiLower (js '' a@b.co'')) \<in> set (map Str [js ''a@b.co''])"
  by (simp add: eval_defs seededStore_def normalize_def trim_def isWhiteSpace_def)

section \<open>Storage failures\<close>

text \<open>
  C6. For every email and every state of the storage, \<open>submitEmail\<close> ends in success or
  in one of the three errors of the business rules, never in an error of the storage;
  a submission set that cannot be read or parsed is the empty set, a rate-limit state
  that cannot be read or parsed is no limit, and a write that throws is ignored.
\<close>

theorem submit_only_business_failures:
  "(\<exists>r st'. submitEmail lc email now1 now2 unlucky st = (r, st')
      \<and> r \<in> {Inr \<lparr>success = True, message = MESSAGES_success\<rparr>,
               Inl (Error MESSAGES_rateLimited),
               Inl (Error MESSAGES_alreadySubscribed),
               Inl (Error MESSAGES_networkError)})
   \<and> (getItemThrows st storageKey \<or> items st storageKey \<in> {None, Some Blank, Some Unparsable} \<longrightarrow>
        getSubmissions st = (Inr (Arr []), st)
        \<and> wasEmailSubmitted lc email st = (Inr False, st))
   \<and> (getItemThrows st rateLimitKey \<or> items st rateLimitKey \<in> {None, Some Blank, Some Unparsable} \<longrightarrow>
        isRateLimited now st = (Inr False, st))
   \<and> (getItemThrows st rateLimitKey \<or> (\<forall>v. setItemThrows st rateLimitKey v) \<longrightarrow>
        recordAttempt now st = (Inr (), st))
   \<and> (removeItemThrows st rateLimitKey \<longrightarrow> snd (isRateLimited now st) = st)
   \<and> ((\<forall>v. setItemThrows st storageKey v) \<longrightarrow> storeSubmission lc email st = (Inr (), st))"
proof (intro conjI impI)
  obtain limited st1 where a: "isRateLimited now1 st = (Inr limited, st1)"
    using isRateLimited_total by blast
  obtain st2 where b: "recordAttempt now2 st1 = (Inr (), st2)"
    using recordAttempt_total by blast
  show "\<exists>r st'. submitEmail lc email now1 now2 unlucky st = (r, st')
      \<and> r \<in> {Inr \<lparr>success = True, message = MESSAGES_success\<rparr>,
               Inl (Error MESSAGES_rateLimited),
               Inl (Error MESSAGES_alreadySubscribed),
               Inl (Error MESSAGES_networkError)}"
    by (simp add: submitEmail_def bind_def a b wasEmailSubmitted_eq storeSubmission_eq
        throw_def return_def)
next
  assume "getItemThrows st storageKey \<or> items st storageKey \<in> {None, Some Blank, Some Unparsable}"
  then have "persisted st = Arr []"
    by (auto simp: persisted_def)
  then show "getSubmissions st = (Inr (Arr []), st)"
    and "wasEmailSubmitted lc email st = (Inr False, st)"
    by (simp_all add: getSubmissions_eq wasEmailSubmitted_eq)
next
  assume "getItemThrows st rateLimitKey \<or> items st rateLimitKey \<in> {None, Some Blank, Some Unparsable}"
  then show "isRateLimited now st = (Inr False, st)"
    by (auto simp: isRateLimited_def comp_defs)
next
  assume "getItemThrows st rateLimitKey \<or> (\<forall>v. setItemThrows st rateLimitKey v)"
  then show "recordAttempt now st = (Inr (), st)"
    by (auto simp: recordAttempt_def comp_defs split: option.splits stored.splits sum.splits prod.splits)
next
  assume "removeItemThrows st rateLimitKey"
  then show "snd (isRateLimited now st) = st"
    by (auto simp: isRateLimited_def comp_defs split: option.splits stored.splits sum.splits prod.splits)
next
  assume "\<forall>v. setItemThrows st storageKey v"
  then show "storeSubmission lc email st = (Inr (), st)"
    by (simp add: storeSubmission_eq split: json.splits)
qed

theorem submit_only_business_failures_witness:
  "getItemThrows brokenStore storageKey \<and> getItemThrows brokenStore rateLimitKey
   \<and> removeItemThrows brokenStore rateLimitKey
   \<and> submitEmail asciiLower (js ''new@example.com'') 1000 1000 False brokenStore =
       (Inr \<lparr>success = True, message = MESSAGES_success\<rparr>, brokenStore)
   \<and> getSubmissions brokenStore = (Inr (Arr []), brokenStore)
   \<and> wasEmailSubmitted asciiLower (js ''new@example.com'') brokenStore = (Inr False, brokenStore)
   \<and> isRateLimited 1000 brokenStore = (Inr False, brokenStore)
   \<and> recordAttempt 1000 brokenStore = (Inr (), brokenStore)
   \<and> storeSubmission asciiLower (js ''new@example.com'') brokenStore = (Inr (), brokenStore)"
proof -
  have a: "getItemThrows brokenStore storageKey" "getItemThrows brokenStore rateLimitKey"
    "removeItemThrows brokenStore rateLimitKey" "\<forall>v. setItemThrows brokenStore storageKey v"
    by (simp_all add: brokenStore_def)
  from submit_only_business_failures [of asciiLower "js ''new@example.com''" 1000 1000 False
      brokenStore 1000]
  show ?thesis
    using a by (simp add: submitEmail_def bind_def return_def throw_def)
qed

section \<open>Rate limiting\<close>

text \<open>
  C3, as the code has it. On a working storage, from no state or from a state with a
  count that is not negative, and after any earlier calls \<open>pre\<close>: when three calls of
  \<open>recordAttempt\<close> or more are made within five minutes (the first at \<open>t1\<close>, the others,
  and any \<open>isRateLimited\<close> checks between them, in the five minutes from \<open>t1\<close>),
  \<open>isRateLimited\<close> returns true as long as the clock is not past five minutes from
  the last recorded attempt; once the clock is past five minutes from the last recorded
  attempt, it returns false and removes the stored state.
\<close>

theorem limited_until_window_after_last_attempt:
  assumes "working st" and "wellFormed st"
    and "\<forall>n. attemptCount st = Some n \<longrightarrow> 0 \<le> n"
    and "within t1 rest"
    and "3 \<le> length (filter is_attempt (RecordAttempt t1 # rest))"
  shows "(now - latest t1 rest \<le> fiveMinutes \<longrightarrow>
            isRateLimited now (run (pre @ RecordAttempt t1 # rest) st) =
              (Inr True, run (pre @ RecordAttempt t1 # rest) st))
       \<and> (now - latest t1 rest > fiveMinutes \<longrightarrow>
            isRateLimited now (run (pre @ RecordAttempt t1 # rest) st) =
              (Inr False, (run (pre @ RecordAttempt t1 # rest) st)
                 \<lparr>items := (items (run (pre @ RecordAttempt t1 # rest) st))(rateLimitKey := None)\<rparr>))"
proof -
  define s0 where "s0 = run pre st"
  define s1 where "s1 = perform (RecordAttempt t1) s0"
  define s where "s = run (pre @ RecordAttempt t1 # rest) st"
  have s: "s = run rest s1"
    by (simp add: s_def s1_def s0_def run_append)
  from assms(3) have "nonneg st"
    by (simp add: nonneg_def split: option.splits)
  with assms(1,2) have s0: "working s0" "wellFormed s0" "nonneg s0"
    unfolding s0_def by (simp_all add: run_keeps run_nonneg)
  define k where "k = (case attemptCount s0 of None \<Rightarrow> 1 | Some n \<Rightarrow> n + 1)"
  from s0(3) have k: "1 \<le> k"
    by (simp add: k_def nonneg_def split: option.splits)
  from perform_keeps [OF s0(1,2), of "RecordAttempt t1"]
  have s1: "working s1" "wellFormed s1" "windowStart s1 = Some t1" "attemptCount s1 = Some k"
    by (simp_all add: s1_def k_def)
  from run_in_window [OF s1 _ assms(4)]
  have w: "working s" "wellFormed s" "windowStart s = Some (latest t1 rest)"
    and c: "attemptCount s = Some (k + int (length (filter is_attempt rest)))"
    by (simp_all add: s)
  from assms(5) k have "3 \<le> k + int (length (filter is_attempt rest))"
    by simp
  with c w(3) have "isRateLimited now s =
      (if now - latest t1 rest > fiveMinutes
       then (Inr False, s\<lparr>items := (items s)(rateLimitKey := None)\<rparr>)
       else (Inr True, s))"
    by (simp add: isRateLimited_working [OF w(1,2)] expired_def)
  then show ?thesis
    unfolding s_def by simp
qed

theorem limited_until_window_after_last_attempt_witness:
  "working freshStore \<and> wellFormed freshStore \<and> attemptCount freshStore = None
   \<and> within 0 [IsRateLimited 120000, RecordAttempt 120000,
                IsRateLimited 240000, RecordAttempt 240000]
   \<and> latest 0 [IsRateLimited 120000, RecordAttempt 120000,
                IsRateLimited 240000, RecordAttempt 240000] = 240000
   \<and> isRateLimited 300001 (run [IsRateLimited 0, RecordAttempt 0,
         IsRateLimited 120000, RecordAttempt 120000,
         IsRateLimited 240000, RecordAttempt 240000] freshStore) =
       (Inr True, run [IsRateLimited 0, RecordAttempt 0,
         IsRateLimited 120000, RecordAttempt 120000,
         IsRateLimited 240000, RecordAttempt 240000] freshStore)
   \<and> fst (isRateLimited 540001 (run [IsRateLimited 0, RecordAttempt 0,
         IsRateLimited 120000, RecordAttempt 120000,
         IsRateLimited 240000, RecordAttempt 240000] freshStore)) = Inr False
   \<and> items (snd (isRateLimited 540001 (run [IsRateLimited 0, RecordAttempt 0,
         IsRateLimited 120000, RecordAttempt 120000,
         IsRateLimited 240000, RecordAttempt 240000] freshStore))) rateLimitKey = None"
proof -
  have a: "working freshStore" "wellFormed freshStore"
    "\<forall>n. attemptCount freshStore = Some n \<longrightarrow> 0 \<le> n"
    "within 0 [IsRateLimited 120000, RecordAttempt 120000,
               IsRateLimited 240000, RecordAttempt 240000]"
    "3 \<le> length (filter is_attempt (RecordAttempt 0 # [IsRateLimited 120000,
       RecordAttempt 120000, IsRateLimited 240000, RecordAttempt 240000]))"
    by (simp_all add: working_fresh wellFormed_fresh fresh_facts within_def fiveMinutes_def)
  from limited_until_window_after_last_attempt [OF a, of 300001 "[IsRateLimited 0]"]
    limited_until_window_after_last_attempt [OF a, of 540001 "[IsRateLimited 0]"]
  show ?thesis
    using a(1,2,4) by (simp add: fiveMinutes_def fresh_facts)
qed

text \<open>
  The claim C3 as stated measures the five minutes from the first recorded attempt: it
  fails on attempts at 0, 2 and 4 minutes, after which the clock one millisecond past
  5 minutes is past five minutes from the first attempt, and \<open>isRateLimited\<close> returns
  true and keeps the state.
\<close>

theorem limited_past_window_of_first_attempt:
  "300001 - 0 > fiveMinutes
   \<and> isRateLimited 300001 (attempts_at [0, 120000, 240000] freshStore) =
       (Inr True, attempts_at [0, 120000, 240000] freshStore)"
  by (simp add: eval_defs attempts_at_def)

text \<open>
  C5. On a working storage, along every sequence of \<open>isRateLimited\<close> and \<open>recordAttempt\<close>
  calls from a well-formed state, every call does to the state what \<open>window_step\<close> says
  (an attempt makes the count one more, or 1 from none; a check that finds no expiry
  leaves the state; a check that finds the window expired clears it). So after any
  such sequence: a call inside the window (its clock not past the expiry) leaves a
  count that is not lower; and a window transition resets the count to 1: the attempt
  that follows a check that found the window expired sets it to 1, and so does the
  first attempt after the state was cleared or absent. \<open>recordAttempt\<close> does not look
  at the clock: expiry is detected by \<open>isRateLimited\<close> only.
\<close>

theorem attempt_count_invariant:
  assumes "working st" and "wellFormed st"
  shows "window_steps cs st
     \<and> (attemptCount (run cs st) = Some n \<and> \<not> expired (time_of c) (run cs st) \<longrightarrow>
          (\<exists>n'. attemptCount (perform c (run cs st)) = Some n' \<and> n \<le> n'))
     \<and> (expired now (run cs st) \<longrightarrow>
          attemptCount (perform (RecordAttempt t) (perform (IsRateLimited now) (run cs st))) = Some 1)
     \<and> (attemptCount (run cs st) = None \<longrightarrow>
          attemptCount (perform (RecordAttempt t) (run cs st)) = Some 1)"
proof (intro conjI impI)
  show "window_steps cs st"
    using assms by (rule window_steps_hold)
  from run_keeps [OF assms] have s: "working (run cs st)" "wellFormed (run cs st)"
    by simp_all
  {
    assume a: "attemptCount (run cs st) = Some n \<and> \<not> expired (time_of c) (run cs st)"
    from perform_keeps [OF s, of c] have w: "window_step c (run cs st) (perform c (run cs st))"
      by simp
    show "\<exists>n'. attemptCount (perform c (run cs st)) = Some n' \<and> n \<le> n'"
    proof (cases c)
      case (IsRateLimited now)
      with w a have "items (perform c (run cs st)) rateLimitKey = items (run cs st) rateLimitKey"
        by simp
      then have "attemptCount (perform c (run cs st)) = attemptCount (run cs st)"
        by (simp add: attemptCount_def rateLimitField_def)
      with a show ?thesis by simp
    next
      case (RecordAttempt now)
      with w a show ?thesis by simp
    qed
  }
  {
    assume "attemptCount (run cs st) = None"
    with perform_keeps [OF s, of "RecordAttempt t"]
    show "attemptCount (perform (RecordAttempt t) (run cs st)) = Some 1"
      by simp
  }
  {
    assume e: "expired now (run cs st)"
    let ?s = "perform (IsRateLimited now) (run cs st)"
    from perform_keeps [OF s, of "IsRateLimited now"] e
    have "working ?s" "wellFormed ?s" "items ?s rateLimitKey = None"
      by simp_all
    with perform_keeps [of ?s "RecordAttempt t"]
    show "attemptCount (perform (RecordAttempt t) ?s) = Some 1"
      by (simp add: attemptCount_def rateLimitField_def)
  }
qed

theorem attempt_count_invariant_witness:
  "working freshStore \<and> wellFormed freshStore
   \<and> window_steps [RecordAttempt 0, RecordAttempt 1000, IsRateLimited 2000,
         IsRateLimited 400000, RecordAttempt 400001] freshStore
   \<and> attemptCount (run [RecordAttempt 0, RecordAttempt 1000] freshStore) = Some 2
   \<and> \<not> expired (time_of (RecordAttempt 2000)) (run [RecordAttempt 0, RecordAttempt 1000] freshStore)
   \<and> attemptCount (perform (RecordAttempt 2000)
         (run [RecordAttempt 0, RecordAttempt 1000] freshStore)) = Some 3
   \<and> expired 400000 (run [RecordAttempt 0, RecordAttempt 1000] freshStore)
   \<and> attemptCount (perform (RecordAttempt 400001) (perform (IsRateLimited 400000)
         (run [RecordAttempt 0, RecordAttempt 1000] freshStore))) = Some 1
   \<and> attemptCount (run [] freshStore) = None
   \<and> attemptCount (perform (RecordAttempt 0) (run [] freshStore)) = Some 1"
proof -
  have "attemptCount (run [RecordAttempt 0, RecordAttempt 1000] freshStore) = Some 2"
    and "\<not> expired (time_of (RecordAttempt 2000)) (run [RecordAttempt 0, RecordAttempt 1000] freshStore)"
    and "attemptCount (perform (RecordAttempt 2000)
         (run [RecordAttempt 0, RecordAttempt 1000] freshStore)) = Some 3"
    and "expired 400000 (run [RecordAttempt 0, RecordAttempt 1000] freshStore)"
    by (simp_all add: eval_defs expired_def)
  with attempt_count_invariant [OF working_fresh wellFormed_fresh,
      of "[RecordAttempt 0, RecordAttempt 1000, IsRateLimited 2000,
           IsRateLimited 400000, RecordAttempt 400001]"]
    attempt_count_invariant [OF working_fresh wellFormed_fresh,
      of "[RecordAttempt 0, RecordAttempt 1000]" 2 "RecordAttempt 2000" 400000 400001]
    attempt_count_invariant [OF working_fresh wellFormed_fresh, of "[]" 0 "RecordAttempt 0" 0 0]
  show ?thesis
    using working_fresh wellFormed_fresh fresh_facts by simp
qed

section \<open>Submission\<close>

text \<open>
  C2, as the code has it. \<open>submitEmail\<close> checks the rate limit first. When the check
  says limited, the call fails with the rate-limit error and \<open>recordAttempt\<close> is not
  called: the storage is the one before the call. When it does not, \<open>recordAttempt\<close>
  is called, whatever follows (duplicate, network error or success): the rate-limit
  state after the call is the one \<open>recordAttempt\<close> left, and on a working storage with a
  well-formed state the count is one more than after the check, or 1 when there was none.
\<close>

theorem attempt_recorded_unless_limited:
  assumes "isRateLimited now1 st = (Inr limited, st1)"
  shows "(limited \<longrightarrow>
            submitEmail lc email now1 now2 unlucky st = (Inl (Error MESSAGES_rateLimited), st))
       \<and> (\<not> limited \<longrightarrow>
            (\<exists>r st2 st3. recordAttempt now2 st1 = (Inr (), st2)
               \<and> submitEmail lc email now1 now2 unlucky st = (r, st3)
               \<and> r \<noteq> Inl (Error MESSAGES_rateLimited)
               \<and> items st3 rateLimitKey = items st2 rateLimitKey
               \<and> (working st \<and> wellFormed st \<longrightarrow>
                    attemptCount st3 =
                      Some (case attemptCount st1 of None \<Rightarrow> 1 | Some n \<Rightarrow> n + 1))))"
proof (intro conjI impI)
  obtain st2 where b: "recordAttempt now2 st1 = (Inr (), st2)"
    using recordAttempt_total by blast
  note eq = submitEmail_eq [OF assms b]
  {
    assume limited
    with isRateLimited_frame [OF assms] have "st1 = st" by auto
    with \<open>limited\<close> show "submitEmail lc email now1 now2 unlucky st =
        (Inl (Error MESSAGES_rateLimited), st)"
      by (simp add: eq)
  }
  {
    assume n: "\<not> limited"
    define r where "r = fst (submitEmail lc email now1 now2 unlucky st)"
    define st3 where "st3 = snd (submitEmail lc email now1 now2 unlucky st)"
    have rl: "items st3 rateLimitKey = items st2 rateLimitKey"
      using n by (simp add: st3_def eq storeSubmission_frame)
    have "r \<noteq> Inl (Error MESSAGES_rateLimited)"
      using n messages_differ by (simp add: r_def eq)
    moreover have "working st \<and> wellFormed st \<longrightarrow>
        attemptCount st3 = Some (case attemptCount st1 of None \<Rightarrow> 1 | Some n \<Rightarrow> n + 1)"
    proof
      assume "working st \<and> wellFormed st"
      with isRateLimited_keeps [OF assms] have "working st1" "wellFormed st1" by simp_all
      from recordAttempt_count [OF this, of now2] b
      have "attemptCount st2 = Some (case attemptCount st1 of None \<Rightarrow> 1 | Some n \<Rightarrow> n + 1)"
        by auto
      with rl show "attemptCount st3 = Some (case attemptCount st1 of None \<Rightarrow> 1 | Some n \<Rightarrow> n + 1)"
        by (simp add: attemptCount_def rateLimitField_def)
    qed
    ultimately show "\<exists>r st2 st3. recordAttempt now2 st1 = (Inr (), st2)
               \<and> submitEmail lc email now1 now2 unlucky st = (r, st3)
               \<and> r \<noteq> Inl (Error MESSAGES_rateLimited)
               \<and> items st3 rateLimitKey = items st2 rateLimitKey
               \<and> (working st \<and> wellFormed st \<longrightarrow>
                    attemptCount st3 =
                      Some (case attemptCount st1 of None \<Rightarrow> 1 | Some n \<Rightarrow> n + 1))"
      using b rl by (intro exI [of _ r] exI [of _ st2] exI [of _ st3]) (simp add: r_def st3_def)
  }
qed

theorem attempt_recorded_unless_limited_witness:
  "isRateLimited 2000 freshStore = (Inr False, freshStore)
   \<and> working freshStore \<and> wellFormed freshStore \<and> attemptCount freshStore = None
   \<and> attemptCount (snd (submitEmail asciiLower (js ''new@example.com'') 2000 2001 False
         freshStore)) = Some 1
   \<and> isRateLimited 2000 (limitedStore 1000 3) = (Inr True, limitedStore 1000 3)
   \<and> submitEmail asciiLower (js ''new@example.com'') 2000 2001 False (limitedStore 1000 3) =
       (Inl (Error MESSAGES_rateLimited), limitedStore 1000 3)"
proof -
  have a: "isRateLimited 2000 freshStore = (Inr False, freshStore)"
    by (rule fresh_check)
  have b: "isRateLimited 2000 (limitedStore 1000 3) = (Inr True, limitedStore 1000 3)"
    by (simp add: limited_check fiveMinutes_def)
  from attempt_recorded_unless_limited [OF a, of asciiLower "js ''new@example.com''" 2001 False]
    attempt_recorded_unless_limited [OF b, of asciiLower "js ''new@example.com''" 2001 False]
  show ?thesis
    using a b fresh_facts working_fresh wellFormed_fresh by auto
qed

text \<open>
  The claim C2 as stated has the attempt recorded also when the call fails with the
  rate-limit error: it fails on a state with three attempts inside the window, where
  the call is rejected and the count stays 3, while \<open>recordAttempt\<close> would make it 4.
\<close>

theorem limited_submission_not_recorded:
  "submitEmail asciiLower (js ''new@example.com'') 2000 2000 False (limitedStore 1000 3) =
     (Inl (Error MESSAGES_rateLimited), limitedStore 1000 3)
   \<and> attemptCount (limitedStore 1000 3) = Some 3
   \<and> attemptCount (snd (recordAttempt 2000 (limitedStore 1000 3))) = Some 4"
  by (simp add: eval_defs limitedStore_def)

text \<open>
  C7. From a storage that works for the submission key, whose stored set reads as the
  array \<open>xs\<close> (the empty one on a fresh store), not rate-limited and without the email,
  \<open>submitEmail\<close> with the random failure not taken returns the success message after
  \<open>storeSubmission\<close> has appended the lower-cased email, and \<open>wasEmailSubmitted\<close> for the
  same email is then true.
\<close>

theorem fresh_submission_succeeds:
  assumes "\<not> getItemThrows st storageKey"
    and "\<forall>v. \<not> setItemThrows st storageKey v"
    and "getSubmissions st = (Inr (Arr xs), st)"
    and "isRateLimited now1 st = (Inr False, st1)"
    and "wasEmailSubmitted lc email st = (Inr False, st)"
  shows "\<exists>st3. submitEmail lc email now1 now2 False st =
            (Inr \<lparr>success = True, message = MESSAGES_success\<rparr>, st3)
     \<and> st3 = snd (storeSubmission lc email (snd (recordAttempt now2 st1)))
     \<and> items st3 storageKey = Some (Encodes (Arr (xs @ [Str (lc email)])))
     \<and> wasEmailSubmitted lc email st3 = (Inr True, st3)"
proof -
  obtain st2 where b: "recordAttempt now2 st1 = (Inr (), st2)"
    using recordAttempt_total by blast
  have k1: "items st1 storageKey = items st storageKey" "getItemThrows st1 = getItemThrows st"
      "setItemThrows st1 = setItemThrows st"
    using isRateLimited_keeps [OF assms(4)] by simp_all
  have k2: "items st2 storageKey = items st1 storageKey \<and> getItemThrows st2 = getItemThrows st1
      \<and> setItemThrows st2 = setItemThrows st1"
    using recordAttempt_frame [OF b] keys_differ by auto
  have p: "persisted st = Arr xs"
    using assms(3) by (simp add: getSubmissions_eq)
  have p2: "persisted st2 = Arr xs"
    using persisted_cong [of st2 st] k1 k2 p by simp
  have "Str (lc email) \<notin> set xs"
    using assms(5) p by (simp add: wasEmailSubmitted_eq)
  then have w: "fst (wasEmailSubmitted lc email st2) \<noteq> Inr True"
    by (simp add: wasEmailSubmitted_eq p2)
  define st3 where "st3 = snd (storeSubmission lc email st2)"
  have s3: "st3 = st2\<lparr>items := (items st2)(storageKey \<mapsto> Encodes (Arr (xs @ [Str (lc email)])))\<rparr>"
    using assms(2) k1 k2 by (simp add: st3_def storeSubmission_eq p2)
  have "persisted st3 = Arr (xs @ [Str (lc email)])"
    using assms(1) k1 k2 by (simp add: s3 persisted_def)
  then have "wasEmailSubmitted lc email st3 = (Inr True, st3)"
    by (simp add: wasEmailSubmitted_eq)
  moreover have "submitEmail lc email now1 now2 False st =
            (Inr \<lparr>success = True, message = MESSAGES_success\<rparr>, st3)"
    using w by (simp add: submitEmail_eq [OF assms(4) b] st3_def)
  ultimately show ?thesis
    using b by (simp add: st3_def [symmetric]) (simp add: s3)
qed

theorem fresh_submission_succeeds_witness:
  "isRateLimited 1000 freshStore = (Inr False, freshStore)
   \<and> wasEmailSubmitted asciiLower (js ''new@example.com'') freshStore = (Inr False, freshStore)
   \<and> fst (submitEmail asciiLower (js ''new@example.com'') 1000 1001 False freshStore) =
       Inr \<lparr>success = True, message = MESSAGES_success\<rparr>
   \<and> items (snd (submitEmail asciiLower (js ''new@example.com'') 1000 1001 False freshStore))
         storageKey = Some (Encodes (Arr [Str (js ''new@example.com'')]))
   \<and> fst (wasEmailSubmitted asciiLower (js ''new@example.com'')
         (snd (submitEmail asciiLower (js ''new@example.com'') 1000 1001 False freshStore))) =
       Inr True"
proof -
  have a: "\<not> getItemThrows freshStore storageKey" "\<forall>v. \<not> setItemThrows freshStore storageKey v"
    "getSubmissions freshStore = (Inr (Arr []), freshStore)"
    "isRateLimited 1000 freshStore = (Inr False, freshStore)"
    "wasEmailSubmitted asciiLower (js ''new@example.com'') freshStore = (Inr False, freshStore)"
    by (simp_all add: fresh_facts fresh_check wasEmailSubmitted_eq persisted_def)
  from fresh_submission_succeeds [OF a, of 1001]
  show ?thesis
    using a by (auto simp: asciiLower_examples)
qed

text \<open>
  C8, as the code has it. When the stored set holds the lower-cased email (lower-cased
  only: the email is not trimmed) and the caller is not rate-limited, \<open>submitEmail\<close>
  fails with the already-subscribed error after \<open>recordAttempt\<close> has run: the storage is
  the one \<open>recordAttempt\<close> left, with the submission set as it was and, on a working
  storage with a well-formed state, the count one more than after the check, or 1 when
  there was none.
\<close>

theorem duplicate_rejected_after_attempt:
  assumes "\<not> getItemThrows st storageKey"
    and "items st storageKey = Some (Encodes (Arr xs))"
    and "Str (lc email) \<in> set xs"
    and "isRateLimited now1 st = (Inr False, st1)"
  shows "\<exists>st2. recordAttempt now2 st1 = (Inr (), st2)
     \<and> submitEmail lc email now1 now2 unlucky st = (Inl (Error MESSAGES_alreadySubscribed), st2)
     \<and> items st2 storageKey = items st storageKey
     \<and> (working st \<and> wellFormed st \<longrightarrow>
          attemptCount st2 = Some (case attemptCount st1 of None \<Rightarrow> 1 | Some n \<Rightarrow> n + 1))"
proof -
  obtain st2 where b: "recordAttempt now2 st1 = (Inr (), st2)"
    using recordAttempt_total by blast
  have k1: "items st1 storageKey = items st storageKey" "getItemThrows st1 = getItemThrows st"
    using isRateLimited_keeps [OF assms(4)] by simp_all
  have k2: "items st2 storageKey = items st1 storageKey \<and> getItemThrows st2 = getItemThrows st1"
    using recordAttempt_frame [OF b] keys_differ by auto
  have "persisted st = Arr xs"
    using assms(1,2) by (simp add: persisted_def)
  then have "persisted st2 = Arr xs"
    using persisted_cong [of st2 st] k1 k2 by simp
  then have "fst (wasEmailSubmitted lc email st2) = Inr True"
    using assms(3) by (simp add: wasEmailSubmitted_eq)
  then have "submitEmail lc email now1 now2 unlucky st = (Inl (Error MESSAGES_alreadySubscribed), st2)"
    by (simp add: submitEmail_eq [OF assms(4) b])
  moreover have "working st \<and> wellFormed st \<longrightarrow>
          attemptCount st2 = Some (case attemptCount st1 of None \<Rightarrow> 1 | Some n \<Rightarrow> n + 1)"
  proof
    assume "working st \<and> wellFormed st"
    with isRateLimited_keeps [OF assms(4)] have "working st1" "wellFormed st1" by simp_all
    from recordAttempt_count [OF this, of now2] b
    show "attemptCount st2 = Some (case attemptCount st1 of None \<Rightarrow> 1 | Some n \<Rightarrow> n + 1)"
      by auto
  qed
  ultimately show ?thesis
    using b k1 k2 by auto
qed

theorem duplicate_rejected_after_attempt_witness:
  "items (seededStore [js ''dup@example.com'']) storageKey =
     Some (Encodes (Arr [Str (js ''dup@example.com'')]))
   \<and> asciiLower (js ''Dup@Example.COM'') = js ''dup@example.com''
   \<and> isRateLimited 1000 (seededStore [js ''dup@example.com'']) =
       (Inr False, seededStore [js ''dup@example.com''])
   \<and> fst (submitEmail asciiLower (js ''Dup@Example.COM'') 1000 1001 False
         (seededStore [js ''dup@example.com''])) = Inl (Error MESSAGES_alreadySubscribed)
   \<and> attemptCount (snd (submitEmail asciiLower (js ''Dup@Example.COM'') 1000 1001 False
         (seededStore [js ''dup@example.com'']))) = Some 1
   \<and> items (snd (submitEmail asciiLower (js ''Dup@Example.COM'') 1000 1001 False
         (seededStore [js ''dup@example.com'']))) storageKey =
       Some (Encodes (Arr [Str (js ''dup@example.com'')]))"
proof -
  have a: "\<not> getItemThrows (seededStore [js ''dup@example.com'']) storageKey"
    "items (seededStore [js ''dup@example.com'']) storageKey =
       Some (Encodes (Arr [Str (js ''dup@example.com'')]))"
    "Str (asciiLower (js ''Dup@Example.COM'')) \<in> set [Str (js ''dup@example.com'')]"
    "isRateLimited 1000 (seededStore [js ''dup@example.com'']) =
       (Inr False, seededStore [js ''dup@example.com''])"
    by (simp_all add: seeded_simps seeded_check asciiLower_examples)
  from duplicate_rejected_after_attempt [where lc = asciiLower and email = "js ''Dup@Example.COM''"
      and ?now2.0 = 1001 and unlucky = False, OF a]
  show ?thesis
    using a seeded_facts [of "[js ''dup@example.com'']"] by (auto simp: asciiLower_examples)
qed

text \<open>
  The claim C8 as stated takes the email normalized, which is lower-cased and trimmed:
  it fails on an email with a leading space, whose normalized form is in the set while
  the submission is accepted.
\<close>

theorem untrimmed_duplicate_accepted:
  "Str (normalize asciiLower (js '' dup@example.com'')) \<in> set (map Str [js ''dup@example.com''])
   \<and> isRateLimited 1000 (seededStore [js ''dup@example.com'']) =
        (Inr False, seededStore [js ''dup@example.com''])
   \<and> fst (submitEmail asciiLower (js '' dup@example.com'') 1000 1000 False
          (seededStore [js ''dup@example.com''])) =
        Inr \<lparr>success = True, message = MESSAGES_success\<rparr>"
  by (simp add: eval_defs seededStore_def normalize_def trim_def isWhiteSpace_def)

end
